theory Spec2Isabelle
  imports Main "HOL-Library.Sublist"
begin

section \<open>Android helpers (androidutils.cpp)\<close>

subsection \<open>adbSelector\<close>

text \<open>
  \<^verbatim>\<open>QStringList adbSelector(const QString &serialNumber)\<close>: a serial number that starts
  with four question marks belongs to a buggy device and is addressed with \<^verbatim>\<open>-d\<close>; every
  other device is addressed with \<^verbatim>\<open>-s <serial>\<close>. A \<^verbatim>\<open>QString\<close> is a sequence of code
  units, modelled as \<^typ>\<open>string\<close>; \<^verbatim>\<open>startsWith\<close> is \<^const>\<open>prefix\<close>.
\<close>

definition adbSelector :: "string \<Rightarrow> string list" where
  "adbSelector serialNumber =
     (if prefix ''????'' serialNumber then [''-d''] else [''-s'', serialNumber])"

subsection \<open>defaultMinimumSDK\<close>

text \<open>
  A \<^verbatim>\<open>QVersionNumber\<close> is a list of integer segments. \<^verbatim>\<open>QVersionNumber::compare\<close> of
  the Qt library walks the common segments and returns the first difference; when one
  number is a proper extension of the other, the first extra segment decides (an extra
  segment \<open>0\<close> makes the longer number the greater one). Only the sign of the result is
  used by the comparison operators. The segments are taken as unbounded integers: the
  segments of a Qt version are small and not negative, far from any overflow of the
  difference.
\<close>

type_synonym QVersionNumber = "int list"

fun compare :: "QVersionNumber \<Rightarrow> QVersionNumber \<Rightarrow> int" where
  "compare [] [] = 0"
| "compare (x # xs) [] = (if x \<noteq> 0 then x else 1)"
| "compare [] (y # ys) = (if y \<noteq> 0 then - y else - 1)"
| "compare (x # xs) (y # ys) = (if x \<noteq> y then x - y else compare xs ys)"

definition versionGe :: "QVersionNumber \<Rightarrow> QVersionNumber \<Rightarrow> bool" where
  "versionGe v w = (compare v w \<ge> 0)"

definition versionLe :: "QVersionNumber \<Rightarrow> QVersionNumber \<Rightarrow> bool" where
  "versionLe v w = (compare v w \<le> 0)"

text \<open>
  \<^verbatim>\<open>int defaultMinimumSDK(const QtSupport::QtVersion *qtVersion)\<close>: the pointer may be
  null (\<^const>\<open>None\<close>); otherwise only \<^verbatim>\<open>qtVersion->qtVersion()\<close> is read.
\<close>

definition defaultMinimumSDK :: "QVersionNumber option \<Rightarrow> int" where
  "defaultMinimumSDK qtVersion =
     (if qtVersion \<noteq> None \<and> versionGe (the qtVersion) [6, 0] then 23
      else if qtVersion \<noteq> None \<and> versionGe (the qtVersion) [5, 13] then 21
      else 16)"

section \<open>Patch reader (diffutils.cpp)\<close>

subsection \<open>Data model\<close>

text \<open>
  Modelled from the spec: the result types are declared outside the excerpt; they
  follow the data model of the specification (section 3). A line has a role and its
  text without the marker character, a hunk carries the start and length of both
  sides and its lines, a file record carries both paths, the change kind and its hunks.
\<close>

datatype LineRole = Context | Added | Removed

record Line =
  role :: LineRole
  content :: string

record Hunk =
  beforeStart :: nat
  beforeCount :: nat
  afterStart :: nat
  afterCount :: nat
  hunkLines :: "Line list"

datatype ChangeKind = AddedFile | RemovedFile | ModifiedFile | RenamedFile | BinaryFile

record FileData =
  source :: string
  destination :: string
  changeKind :: ChangeKind
  hunks :: "Hunk list"

text \<open>\<^verbatim>\<open>PatchInfo\<close>: a git segment after header detection, the remaining text and the
  file record found so far.\<close>

record PatchInfo =
  patch :: string
  fileData :: FileData

subsection \<open>The promise\<close>

text \<open>
  \<^verbatim>\<open>QPromise<QList<FileData>>\<close> is the channel to the caller: results are appended with
  \<^verbatim>\<open>addResult\<close>, progress is set with \<^verbatim>\<open>setProgressRange\<close> and \<^verbatim>\<open>setProgressValue\<close>,
  and \<^verbatim>\<open>isCanceled\<close> reads a flag that another thread may raise at any moment and that
  stays raised. The model is sequential, so the moment of cancellation is given as the
  number of polls that still answer "not cancelled": \<open>None\<close> is never cancelled,
  \<open>Some 0\<close> is cancelled now.

  The field \<open>events\<close> is the log of what the reader did, in order: every call on the
  promise and every call of a segment parser. It is only written, never read, by the
  reader; the temporal properties below are stated on it. It records the calls the
  reader makes, whatever the promise forwards of them to its watchers.
\<close>

datatype Event =
    IsCanceled bool
  | SetProgressRange int int
  | SetProgressValue int
  | DetectSegment
  | ReadSegment
  | AddResult

record QPromise =
  results :: "FileData list list"
  progressMinimum :: int
  progressMaximum :: int
  progressValue :: int
  pollsUntilCancel :: "nat option"
  events :: "Event list"

definition logEvent :: "Event \<Rightarrow> QPromise \<Rightarrow> QPromise" where
  "logEvent e p = p\<lparr>events := events p @ [e]\<rparr>"

definition isCanceled :: "QPromise \<Rightarrow> bool \<times> QPromise" where
  "isCanceled p =
     (case pollsUntilCancel p of
        None \<Rightarrow> (False, logEvent (IsCanceled False) p)
      | Some 0 \<Rightarrow> (True, logEvent (IsCanceled True) p)
      | Some (Suc k) \<Rightarrow> (False, logEvent (IsCanceled False) (p\<lparr>pollsUntilCancel := Some k\<rparr>)))"

definition setProgressRange :: "int \<Rightarrow> int \<Rightarrow> QPromise \<Rightarrow> QPromise" where
  "setProgressRange lo hi p =
     logEvent (SetProgressRange lo hi) (p\<lparr>progressMinimum := lo, progressMaximum := hi\<rparr>)"

definition setProgressValue :: "int \<Rightarrow> QPromise \<Rightarrow> QPromise" where
  "setProgressValue v p = logEvent (SetProgressValue v) (p\<lparr>progressValue := v\<rparr>)"

definition addResult :: "FileData list \<Rightarrow> QPromise \<Rightarrow> QPromise" where
  "addResult r p = logEvent AddResult (p\<lparr>results := results p @ [r]\<rparr>)"

definition resultCount :: "QPromise \<Rightarrow> nat" where
  "resultCount p = length (results p)"

text \<open>A promise as \<^verbatim>\<open>readPatch\<close> creates it: nothing reported, and nobody holds a
  handle that could cancel it.\<close>

definition newPromise :: QPromise where
  "newPromise = \<lparr>results = [], progressMinimum = 0, progressMaximum = 0, progressValue = 0,
     pollsUntilCancel = None, events = []\<rparr>"

subsection \<open>The parts outside the excerpt\<close>

text \<open>
  The excerpt shows the control flow of the four reader functions, not the code that
  finds the segment boundaries nor the parsers of one segment. The reader is therefore
  defined over a record of these parts, and every property of the reader below holds
  for all of them:
  \<^item> \<open>cropPatch\<close>: the text \<^verbatim>\<open>croppedPatch\<close> that \<^verbatim>\<open>readPatchWithPromise\<close> passes on;
  \<^item> \<open>gitSegments\<close>: the texts \<^verbatim>\<open>fileDiff\<close>, one per git header found, in text order;
  \<^item> \<open>detectFileData\<close>: \<^verbatim>\<open>detectFileData(fileDiff, &fileData, &remainingFileDiff)\<close>,
    \<open>None\<close> when it returns false;
  \<^item> \<open>readPatchInfo\<close>: the parse of the body of one detected git segment, \<open>None\<close> when it
    leaves \<^verbatim>\<open>readOk\<close> false;
  \<^item> \<open>diffSegments\<close>: the texts \<^verbatim>\<open>headerAndChunks\<close>, one per unified header found, in
    text order;
  \<^item> \<open>readDiffHeaderAndChunks\<close>: \<^verbatim>\<open>readDiffHeaderAndChunks(headerAndChunks, &readOk)\<close>,
    \<open>None\<close> when it leaves \<^verbatim>\<open>readOk\<close> false.
\<close>

record Parsers =
  cropPatch :: "string \<Rightarrow> string"
  gitSegments :: "string \<Rightarrow> string list"
  detectFileData :: "string \<Rightarrow> (FileData \<times> string) option"
  readPatchInfo :: "PatchInfo \<Rightarrow> FileData option"
  diffSegments :: "string \<Rightarrow> string list"
  readDiffHeaderAndChunks :: "string \<Rightarrow> FileData option"

subsection \<open>readGitPatch\<close>

text \<open>
  First loop (lines 15 to 18): for every git header, poll for cancellation and return
  when it is seen; detect the file data of the segment and return when that fails;
  otherwise append to \<^verbatim>\<open>patches\<close>. \<open>None\<close> is the \<^verbatim>\<open>return\<close> out of the function.
\<close>

fun detectPatches ::
  "Parsers \<Rightarrow> string list \<Rightarrow> PatchInfo list \<Rightarrow> QPromise \<Rightarrow> PatchInfo list option \<times> QPromise" where
  "detectPatches P [] patches p = (Some patches, p)"
| "detectPatches P (fileDiff # rest) patches p =
     (case isCanceled p of
        (True, p1) \<Rightarrow> (None, p1)
      | (False, p1) \<Rightarrow>
          (case detectFileData P fileDiff of
             None \<Rightarrow> (None, logEvent DetectSegment p1)
           | Some (fd, remainingFileDiff) \<Rightarrow>
               detectPatches P rest
                 (patches @ [\<lparr>patch = remainingFileDiff, fileData = fd\<rparr>])
                 (logEvent DetectSegment p1)))"

text \<open>
  Second loop (lines 22 to 26): for every entry of \<^verbatim>\<open>patches\<close>, poll for cancellation
  and return when it is seen; report \<^verbatim>\<open>i++\<close> as the progress value; parse the body and
  return when \<^verbatim>\<open>readOk\<close> is false; otherwise append to \<^verbatim>\<open>fileDataList\<close>. The counter
  \<^verbatim>\<open>i\<close> never exceeds the length of a list held in memory and is modelled without
  wrap-around.
\<close>

fun readPatches ::
  "Parsers \<Rightarrow> PatchInfo list \<Rightarrow> int \<Rightarrow> FileData list \<Rightarrow> QPromise \<Rightarrow> FileData list option \<times> QPromise" where
  "readPatches P [] i fileDataList p = (Some fileDataList, p)"
| "readPatches P (patchInfo # rest) i fileDataList p =
     (case isCanceled p of
        (True, p1) \<Rightarrow> (None, p1)
      | (False, p1) \<Rightarrow>
          (let p2 = logEvent ReadSegment (setProgressValue i p1) in
           case readPatchInfo P patchInfo of
             None \<Rightarrow> (None, p2)
           | Some fd \<Rightarrow> readPatches P rest (i + 1) (fileDataList @ [fd]) p2))"

definition readGitPatch :: "Parsers \<Rightarrow> QPromise \<Rightarrow> string \<Rightarrow> QPromise" where
  "readGitPatch P promise patchText =
     (case detectPatches P (gitSegments P patchText) [] promise of
        (None, p1) \<Rightarrow> p1
      | (Some patches, p1) \<Rightarrow>
          if patches = [] then p1
          else (case readPatches P patches 0 []
                       (setProgressRange 0 (int (length patches)) p1) of
                  (None, p2) \<Rightarrow> p2
                | (Some fileDataList, p2) \<Rightarrow> addResult fileDataList p2))"

subsection \<open>readDiffPatch\<close>

text \<open>
  The matching loop polls for cancellation at its head (line 6); a header match closes
  the segment of the previous header, which is read inside the loop (line 8); the
  segment of the last header is read after the loop (line 9). When a read fails, or when
  no header was found at all, \<^verbatim>\<open>readOk\<close> is false and the function returns without a
  result (line 10). \<open>readDiffSegments\<close> is entered after the poll of the first match,
  with the segments still to be read; there is at least one, so its first equation is
  never reached.
\<close>

fun readDiffSegments ::
  "Parsers \<Rightarrow> string list \<Rightarrow> FileData list \<Rightarrow> QPromise \<Rightarrow> FileData list option \<times> QPromise" where
  "readDiffSegments P [] fileDataList p = (None, p)"
| "readDiffSegments P [headerAndChunks] fileDataList p =
     (case readDiffHeaderAndChunks P headerAndChunks of
        None \<Rightarrow> (None, logEvent ReadSegment p)
      | Some fd \<Rightarrow> (Some (fileDataList @ [fd]), logEvent ReadSegment p))"
| "readDiffSegments P (headerAndChunks # next # rest) fileDataList p =
     (case isCanceled p of
        (True, p1) \<Rightarrow> (None, p1)
      | (False, p1) \<Rightarrow>
          (case readDiffHeaderAndChunks P headerAndChunks of
             None \<Rightarrow> (None, logEvent ReadSegment p1)
           | Some fd \<Rightarrow>
               readDiffSegments P (next # rest) (fileDataList @ [fd]) (logEvent ReadSegment p1)))"

definition readDiffPatch :: "Parsers \<Rightarrow> QPromise \<Rightarrow> string \<Rightarrow> QPromise" where
  "readDiffPatch P promise patchText =
     (case diffSegments P patchText of
        [] \<Rightarrow> promise
      | segments \<Rightarrow>
          (case isCanceled promise of
             (True, p1) \<Rightarrow> p1
           | (False, p1) \<Rightarrow>
               (case readDiffSegments P segments [] p1 of
                  (None, p2) \<Rightarrow> p2
                | (Some fileDataList, p2) \<Rightarrow> addResult fileDataList p2)))"

subsection \<open>readPatchWithPromise and readPatch\<close>

definition readPatchWithPromise :: "Parsers \<Rightarrow> QPromise \<Rightarrow> string \<Rightarrow> QPromise" where
  "readPatchWithPromise P promise patchText =
     (let p0 = setProgressValue 0 (setProgressRange 0 1 promise);
          croppedPatch = cropPatch P patchText;
          p1 = readGitPatch P p0 croppedPatch
      in if resultCount p1 = 0 then readDiffPatch P p1 croppedPatch else p1)"

text \<open>
  \<^verbatim>\<open>readPatch\<close> runs the reader on a promise of its own, which it only starts, and
  returns no value when the
  promise holds no result, the first result otherwise (\<^verbatim>\<open>QFuture::result()\<close>; the
  head is taken of a list that is not empty).
\<close>

definition readPatch :: "Parsers \<Rightarrow> string \<Rightarrow> FileData list option" where
  "readPatch P patchText =
     (let promise = readPatchWithPromise P newPromise patchText
      in if resultCount promise = 0 then None else Some (hd (results promise)))"

subsection \<open>Segmenters and segment parsers after the specification\<close>

text \<open>
  Modelled from the spec: the definitions of this subsection stand for the code that
  is not in the excerpt (the segmenters, \<^verbatim>\<open>detectFileData\<close>, \<^verbatim>\<open>readDiffHeaderAndChunks\<close>
  and the reader of hunks). They follow sections 4.1 and 4.2 of the specification and
  are collected in
  \<open>specParsers\<close>, the instance of \<open>Parsers\<close> used where a property needs the content of
  a parsed file and where a concrete patch is run.
\<close>

definition newLine :: char where
  "newLine = CHR 0x0A"

text \<open>\<^verbatim>\<open>patch.split(newLine)\<close> (line 3): the parts between the newlines, empty parts kept.\<close>

fun splitLines :: "string \<Rightarrow> string list" where
  "splitLines [] = [[]]"
| "splitLines (c # cs) =
     (if c = newLine then [] # splitLines cs
      else (case splitLines cs of [] \<Rightarrow> [[c]] | l # ls \<Rightarrow> (c # l) # ls))"

text \<open>Helpers of the parsers below: the text of a list of lines, the rest of a string
  after a given prefix, and a decimal number at the head of a string.\<close>

fun joinLines :: "string list \<Rightarrow> string" where
  "joinLines [] = []"
| "joinLines [l] = l"
| "joinLines (l # l' # ls) = l @ newLine # joinLines (l' # ls)"

definition stripPrefix :: "string \<Rightarrow> string \<Rightarrow> string option" where
  "stripPrefix pre s = (if prefix pre s then Some (drop (length pre) s) else None)"

definition isDigit :: "char \<Rightarrow> bool" where
  "isDigit c = (c \<in> set ''0123456789'')"

definition digitValue :: "char \<Rightarrow> nat" where
  "digitValue c = of_char c - 48"

definition readNumber :: "string \<Rightarrow> (nat \<times> string) option" where
  "readNumber s =
     (let ds = takeWhile isDigit s
      in if ds = [] then None
         else Some (foldl (\<lambda>n c. 10 * n + digitValue c) 0 ds, dropWhile isDigit s))"

text \<open>Modelled from the spec: one side of a hunk marker, \<^verbatim>\<open>start,count\<close>, where "count
  defaults to 1 if omitted" (4.2, step 2). The code that reads the marker is not in the
  excerpt.\<close>

definition readRange :: "string \<Rightarrow> ((nat \<times> nat) \<times> string) option" where
  "readRange s =
     (case readNumber s of
        None \<Rightarrow> None
      | Some (start, r) \<Rightarrow>
          (case stripPrefix '','' r of
             None \<Rightarrow> Some ((start, 1), r)
           | Some r' \<Rightarrow>
               (case readNumber r' of
                  None \<Rightarrow> None
                | Some (count, r'') \<Rightarrow> Some ((start, count), r''))))"

text \<open>Modelled from the spec: the marker \<^verbatim>\<open>@@ -start,count +start,count @@\<close> that opens a
  hunk (4.2, step 2); the result is before-start, before-count, after-start,
  after-count. The code that reads the marker is not in the excerpt.\<close>

definition readHunkMarker :: "string \<Rightarrow> (nat \<times> nat \<times> nat \<times> nat) option" where
  "readHunkMarker l =
     (case stripPrefix ''@@ -'' l of
        None \<Rightarrow> None
      | Some r1 \<Rightarrow>
     (case readRange r1 of
        None \<Rightarrow> None
      | Some ((bs, bc), r2) \<Rightarrow>
     (case stripPrefix '' +'' r2 of
        None \<Rightarrow> None
      | Some r3 \<Rightarrow>
     (case readRange r3 of
        None \<Rightarrow> None
      | Some ((as, ac), r4) \<Rightarrow>
          if prefix '' @@'' r4 then Some (bs, bc, as, ac) else None))))"

text \<open>Modelled from the spec: the lines of a hunk "are classified by leading character:
  space \<open>\<rightarrow>\<close> context, \<^verbatim>\<open>-\<close> \<open>\<rightarrow>\<close> removed, \<^verbatim>\<open>+\<close> \<open>\<rightarrow>\<close> added, anything else \<open>\<rightarrow>\<close> trailing
  metadata [...], not a new Line" (4.2, step 2); the content is the text without the
  marker character. \<open>None\<close> is "anything else". The line reader is not in the excerpt.\<close>

fun classifyLine :: "string \<Rightarrow> Line option" where
  "classifyLine [] = None"
| "classifyLine (c # cs) =
     (if c = CHR '' '' then Some \<lparr>role = Context, content = cs\<rparr>
      else if c = CHR ''-'' then Some \<lparr>role = Removed, content = cs\<rparr>
      else if c = CHR ''+'' then Some \<lparr>role = Added, content = cs\<rparr>
      else None)"

definition countRole :: "LineRole \<Rightarrow> Hunk \<Rightarrow> nat" where
  "countRole r h = length (filter (\<lambda>l. role l = r) (hunkLines h))"

text \<open>Modelled from the spec: "Validate that accumulated context+removed line count
  matches the hunk's declared before-length and context+added matches declared
  after-length" (4.2, step 3). The validation is not in the excerpt.\<close>

definition hunkCountsMatch :: "Hunk \<Rightarrow> bool" where
  "hunkCountsMatch h =
     (countRole Context h + countRole Removed h = beforeCount h
      \<and> countRole Context h + countRole Added h = afterCount h)"

definition closeHunk :: "Hunk option \<Rightarrow> Hunk list option" where
  "closeHunk cur =
     (case cur of
        None \<Rightarrow> Some []
      | Some h \<Rightarrow> if hunkCountsMatch h then Some [h] else None)"

text \<open>Modelled from the spec: the hunk parser of 4.2, steps 2 and 3. The lines are scanned
  for markers; "each marker opens a new Hunk", the lines after it are classified, a
  hunk is validated when the next marker or the end of the segment closes it, and a
  mismatch or a line that starts like a marker and is none (a corrupted hunk header)
  fails the file. Lines before the first marker belong to no hunk. The first argument
  is the hunk that is open. The hunk parser is not in the excerpt.\<close>

fun specReadHunks :: "Hunk option \<Rightarrow> string list \<Rightarrow> Hunk list option" where
  "specReadHunks cur [] = closeHunk cur"
| "specReadHunks cur (l # ls) =
     (if prefix ''@@'' l then
        (case readHunkMarker l of
           None \<Rightarrow> None
         | Some (bs, bc, as, ac) \<Rightarrow>
             (case closeHunk cur of
                None \<Rightarrow> None
              | Some closed \<Rightarrow>
                  (case specReadHunks
                          (Some \<lparr>beforeStart = bs, beforeCount = bc, afterStart = as,
                                 afterCount = ac, hunkLines = []\<rparr>) ls of
                     None \<Rightarrow> None
                   | Some hs \<Rightarrow> Some (closed @ hs))))
      else
        (case cur of
           None \<Rightarrow> specReadHunks None ls
         | Some h \<Rightarrow>
             (case classifyLine l of
                None \<Rightarrow> specReadHunks (Some h) ls
              | Some ln \<Rightarrow> specReadHunks (Some (h\<lparr>hunkLines := hunkLines h @ [ln]\<rparr>)) ls)))"

text \<open>Modelled from the spec: the header of a unified segment, \<^verbatim>\<open>--- a\<close> and \<^verbatim>\<open>+++ b\<close>,
  gives the source and the destination path (4.2, step 1; section 6); a header line
  without a path is malformed. A unified header names no change kind, so the file
  counts as modified. \<^verbatim>\<open>readDiffHeaderAndChunks\<close> is called in the excerpt (lines 8 and
  9) and defined outside it.\<close>

definition specReadDiffHeaderAndChunks :: "string \<Rightarrow> FileData option" where
  "specReadDiffHeaderAndChunks headerAndChunks =
     (case splitLines headerAndChunks of
        l1 # l2 # body \<Rightarrow>
          (case (stripPrefix ''--- '' l1, stripPrefix ''+++ '' l2) of
             (Some src, Some dst) \<Rightarrow>
               if src = [] \<or> dst = [] then None
               else (case specReadHunks None body of
                       None \<Rightarrow> None
                     | Some hs \<Rightarrow>
                         Some \<lparr>source = src, destination = dst,
                               changeKind = ModifiedFile, hunks = hs\<rparr>)
           | _ \<Rightarrow> None)
      | _ \<Rightarrow> None)"

text \<open>Modelled from the spec: the segmenter must "track whether it is inside a hunk while
  scanning" (4.1). The state is the number of before-lines and after-lines that the
  open hunk still expects; a marker opens a hunk with its declared counts, every
  classified line uses up its sides. The segmenter is not in the excerpt.\<close>

fun trackHunk :: "nat \<times> nat \<Rightarrow> string \<Rightarrow> nat \<times> nat" where
  "trackHunk (b, a) l =
     (case readHunkMarker l of
        Some (bs, bc, as, ac) \<Rightarrow> (bc, ac)
      | None \<Rightarrow>
          (case classifyLine l of
             None \<Rightarrow> (b, a)
           | Some ln \<Rightarrow>
               (case role ln of
                  Context \<Rightarrow> (b - 1, a - 1)
                | Removed \<Rightarrow> (b - 1, a)
                | Added \<Rightarrow> (b, a - 1))))"

definition hunkOpen :: "nat \<times> nat \<Rightarrow> bool" where
  "hunkOpen st = (fst st > 0 \<or> snd st > 0)"

text \<open>Modelled from the spec: "split the text into one segment per
  boundary-to-next-boundary span", where "only lines outside any currently-open hunk
  count as new boundaries" and "trailing content after the last recognized boundary
  [...] belongs to the last segment" (4.1). The first argument tells whether the
  remaining lines start with a boundary marker. The result is the lines before the
  first boundary and the segments after it. The segmenter is not in the excerpt.\<close>

fun splitSegments ::
  "(string list \<Rightarrow> bool) \<Rightarrow> nat \<times> nat \<Rightarrow> string list \<Rightarrow> string list \<times> string list list" where
  "splitSegments boundary st [] = ([], [])"
| "splitSegments boundary st (l # ls) =
     (case splitSegments boundary (trackHunk st l) ls of
        (h, segs) \<Rightarrow>
          if \<not> hunkOpen st \<and> boundary (l # ls) then ([], (l # h) # segs)
          else (l # h, segs))"

text \<open>Modelled from the spec: the unified boundary, "lines beginning with \<^verbatim>\<open>--- \<close>/\<^verbatim>\<open>+++ \<close>
  pairs preceding \<^verbatim>\<open>@@\<close>" (4.1).\<close>

fun unifiedBoundary :: "string list \<Rightarrow> bool" where
  "unifiedBoundary (l1 # l2 # l3 # ls) =
     (prefix ''--- '' l1 \<and> prefix ''+++ '' l2 \<and> prefix ''@@'' l3)"
| "unifiedBoundary ls = False"

text \<open>Modelled from the spec: the git boundary, "lines beginning with \<^verbatim>\<open>diff --git \<close>"
  (4.1).\<close>

fun gitBoundary :: "string list \<Rightarrow> bool" where
  "gitBoundary (l # ls) = prefix ''diff --git '' l"
| "gitBoundary [] = False"

text \<open>Modelled from the spec: the segments of the two formats, each the text of its
  lines; the lines before the first boundary belong to no segment (4.1). The code that
  cuts \<^verbatim>\<open>headerAndChunks\<close> and \<^verbatim>\<open>fileDiff\<close> out of the patch is not in the excerpt.\<close>

definition specDiffSegments :: "string \<Rightarrow> string list" where
  "specDiffSegments patchText =
     map joinLines (snd (splitSegments unifiedBoundary (0, 0) (splitLines patchText)))"

definition specGitSegments :: "string \<Rightarrow> string list" where
  "specGitSegments patchText =
     map joinLines (snd (splitSegments gitBoundary (0, 0) (splitLines patchText)))"

text \<open>Modelled from the spec: the lines of a git header block after the first, "also
  parse \<^verbatim>\<open>rename from/to\<close>, \<^verbatim>\<open>new/deleted file mode\<close>, and detect
  \<^verbatim>\<open>Binary files ... differ\<close>" (4.2, step 1). The header parser is not in the excerpt.\<close>

definition gitHeaderLine :: "FileData \<Rightarrow> string \<Rightarrow> FileData" where
  "gitHeaderLine fd l =
     (if prefix ''new file mode '' l then fd\<lparr>changeKind := AddedFile\<rparr>
      else if prefix ''deleted file mode '' l then fd\<lparr>changeKind := RemovedFile\<rparr>
      else (case stripPrefix ''rename from '' l of
              Some x \<Rightarrow> fd\<lparr>source := x, changeKind := RenamedFile\<rparr>
            | None \<Rightarrow>
          (case stripPrefix ''rename to '' l of
              Some y \<Rightarrow> fd\<lparr>destination := y, changeKind := RenamedFile\<rparr>
            | None \<Rightarrow>
          if prefix ''Binary files '' l \<and> suffix '' differ'' l
          then fd\<lparr>changeKind := BinaryFile\<rparr> else fd)))"

text \<open>Modelled from the spec: the header of a git segment, \<^verbatim>\<open>diff --git a/x b/x\<close>
  (section 6), gives the two paths, separated by the first space; a first line that is
  no such header fails the segment ("a git segment whose file data cannot be
  detected"). The header block runs to the first line that starts a hunk, the rest is
  the remaining text. \<^verbatim>\<open>detectFileData\<close> is called in the excerpt (line 17) and defined
  outside it.\<close>

definition specDetectFileData :: "string \<Rightarrow> (FileData \<times> string) option" where
  "specDetectFileData fileDiff =
     (case splitLines fileDiff of
        [] \<Rightarrow> None
      | l # ls \<Rightarrow>
          (case stripPrefix ''diff --git '' l of
             None \<Rightarrow> None
           | Some names \<Rightarrow>
               (let a = takeWhile (\<lambda>c. c \<noteq> CHR '' '') names;
                    b = drop 1 (dropWhile (\<lambda>c. c \<noteq> CHR '' '') names)
                in if a = [] \<or> b = [] then None
                   else Some
                     (foldl gitHeaderLine
                        \<lparr>source = a, destination = b, changeKind = ModifiedFile, hunks = []\<rparr>
                        (takeWhile (\<lambda>x. \<not> prefix ''@@'' x) ls),
                      joinLines (dropWhile (\<lambda>x. \<not> prefix ''@@'' x) ls)))))"

text \<open>Modelled from the spec: "binary files produce a FileData with zero hunks"; for the
  other segments the remaining lines are parsed into hunks (4.2, steps 1 and 2). The
  body of the second loop of \<^verbatim>\<open>readGitPatch\<close> between lines 25 and 26 is not in the
  excerpt.\<close>

definition specReadPatchInfo :: "PatchInfo \<Rightarrow> FileData option" where
  "specReadPatchInfo patchInfo =
     (if changeKind (fileData patchInfo) = BinaryFile then Some (fileData patchInfo)
      else (case specReadHunks None (splitLines (patch patchInfo)) of
              None \<Rightarrow> None
            | Some hs \<Rightarrow> Some ((fileData patchInfo)\<lparr>hunks := hs\<rparr>)))"

text \<open>Modelled from the spec: the specification describes no cropping of the patch text,
  so the instance passes the text on unchanged. The code that computes
  \<^verbatim>\<open>croppedPatch\<close> is not in the excerpt.\<close>

definition specParsers :: Parsers where
  "specParsers =
     \<lparr>cropPatch = (\<lambda>patchText. patchText),
      gitSegments = specGitSegments,
      detectFileData = specDetectFileData,
      readPatchInfo = specReadPatchInfo,
      diffSegments = specDiffSegments,
      readDiffHeaderAndChunks = specReadDiffHeaderAndChunks\<rparr>"

subsection \<open>Reading the event log\<close>

text \<open>
  The functions of this subsection only read the log; the properties of the reader are
  stated with them. \<open>newEvents p p'\<close> is what was logged between the states \<open>p\<close> and
  \<open>p'\<close>, \<open>parseEvents\<close> is the log of one call of \<^verbatim>\<open>readPatchWithPromise\<close>, and
  \<open>gitAttempt\<close> is the state in which \<^verbatim>\<open>readPatchWithPromise\<close> tests the result count,
  that is the state its call of \<^verbatim>\<open>readGitPatch\<close> leaves.
\<close>

definition newEvents :: "QPromise \<Rightarrow> QPromise \<Rightarrow> Event list" where
  "newEvents p p' = drop (length (events p)) (events p')"

definition gitAttempt :: "Parsers \<Rightarrow> QPromise \<Rightarrow> string \<Rightarrow> QPromise" where
  "gitAttempt P promise patchText =
     readGitPatch P (setProgressValue 0 (setProgressRange 0 1 promise)) (cropPatch P patchText)"

definition parseEvents :: "Parsers \<Rightarrow> QPromise \<Rightarrow> string \<Rightarrow> Event list" where
  "parseEvents P promise patchText = newEvents promise (readPatchWithPromise P promise patchText)"

text \<open>
  The parse of one git segment, both loops of \<^verbatim>\<open>readGitPatch\<close> taken together: the
  detection of its file data and, on the remaining text, the parse of its body.
\<close>

definition readGitSegment :: "Parsers \<Rightarrow> string \<Rightarrow> FileData option" where
  "readGitSegment P fileDiff =
     (case detectFileData P fileDiff of
        None \<Rightarrow> None
      | Some (fd, remainingFileDiff) \<Rightarrow>
          readPatchInfo P \<lparr>patch = remainingFileDiff, fileData = fd\<rparr>)"

text \<open>
  \<open>pollGuarded c\<close>: every call of a segment parser is paid for by a poll of its own
  that came before it and answered "not cancelled"; \<open>c\<close> is the number of such polls
  not yet used up.
\<close>

fun pollGuarded :: "nat \<Rightarrow> Event list \<Rightarrow> bool" where
  "pollGuarded c [] = True"
| "pollGuarded c (e # es) =
     (if e = IsCanceled False then pollGuarded (Suc c) es
      else if e = DetectSegment \<or> e = ReadSegment then c > 0 \<and> pollGuarded (c - 1) es
      else pollGuarded c es)"

text \<open>
  \<open>pollDirect b\<close>: every call of a segment parser has a poll that answered "not
  cancelled" before it and no other call of a segment parser in between; \<open>b\<close> tells
  whether such a poll is pending.
\<close>

fun pollDirect :: "bool \<Rightarrow> Event list \<Rightarrow> bool" where
  "pollDirect b [] = True"
| "pollDirect b (e # es) =
     (if e = IsCanceled False then pollDirect True es
      else if e = DetectSegment \<or> e = ReadSegment then b \<and> pollDirect False es
      else pollDirect b es)"

text \<open>
  \<open>pollCredit c\<close> runs through the log with \<open>c\<close> polls pending, a pending poll being
  one that answered "not cancelled" and is not yet used up. A poll that answers "not
  cancelled" must find fewer than two polls pending and adds one; a call of a segment
  parser must find a poll pending and uses it up. The result is the number of polls
  pending at the end, and \<open>None\<close> when the log breaks one of the two rules.
\<close>

fun pollCredit :: "nat \<Rightarrow> Event list \<Rightarrow> nat option" where
  "pollCredit c [] = Some c"
| "pollCredit c (e # es) =
     (if e = IsCanceled False then (if c < 2 then pollCredit (Suc c) es else None)
      else if e = DetectSegment \<or> e = ReadSegment
        then (if c > 0 then pollCredit (c - 1) es else None)
      else pollCredit c es)"

text \<open>
  \<open>endsAtCancel\<close>: the log ends with the first poll that answers "cancelled".
  \<open>quietAfterCancel\<close>: after the first poll that answers "cancelled" the log holds at
  most one more event, the same answer to one more poll.
\<close>

fun endsAtCancel :: "Event list \<Rightarrow> bool" where
  "endsAtCancel [] = True"
| "endsAtCancel (e # es) = (if e = IsCanceled True then es = [] else endsAtCancel es)"

fun quietAfterCancel :: "Event list \<Rightarrow> bool" where
  "quietAfterCancel [] = True"
| "quietAfterCancel (e # es) =
     (if e = IsCanceled True then es = [] \<or> es = [IsCanceled True] else quietAfterCancel es)"

text \<open>
  \<open>reportLog\<close> keeps the progress reports and the reads of segment bodies.
  \<open>alternates i\<close> holds of such a list when it is the report of \<open>i\<close>, a read, the report
  of \<open>i + 1\<close>, a read, and so on, ending with a read.
\<close>

fun isReport :: "Event \<Rightarrow> bool" where
  "isReport (SetProgressValue v) = True"
| "isReport ReadSegment = True"
| "isReport e = False"

definition reportLog :: "Event list \<Rightarrow> Event list" where
  "reportLog es = filter isReport es"

fun alternates :: "int \<Rightarrow> Event list \<Rightarrow> bool" where
  "alternates i [] = True"
| "alternates i [a] = False"
| "alternates i (a # b # es) =
     (a = SetProgressValue i \<and> b = ReadSegment \<and> alternates (i + 1) es)"

fun progressValues :: "Event list \<Rightarrow> int list" where
  "progressValues [] = []"
| "progressValues (SetProgressValue v # es) = v # progressValues es"
| "progressValues (e # es) = progressValues es"

fun progressRanges :: "Event list \<Rightarrow> (int \<times> int) list" where
  "progressRanges [] = []"
| "progressRanges (SetProgressRange lo hi # es) = (lo, hi) # progressRanges es"
| "progressRanges (e # es) = progressRanges es"

text \<open>\<open>reportAfterEachRead\<close>: every read of a segment is followed, somewhere later in the
  log, by a progress report.\<close>

fun reportAfterEachRead :: "Event list \<Rightarrow> bool" where
  "reportAfterEachRead [] = True"
| "reportAfterEachRead (e # es) =
     (if e = ReadSegment then progressValues es \<noteq> [] \<and> reportAfterEachRead es
      else reportAfterEachRead es)"

subsection \<open>Example patches\<close>

text \<open>A git patch of one binary file, and one of a changed file and a binary file.\<close>

definition gitBinary :: string where
  "gitBinary = ''diff --git a/x b/x\<newline>Binary files a/x and b/x differ\<newline>''"

definition gitTwoFiles :: string where
  "gitTwoFiles = ''diff --git a/f b/f\<newline>--- a/f\<newline>+++ b/f\<newline>@@ -1 +1 @@\<newline>-a\<newline>+b\<newline>diff --git a/x b/x\<newline>Binary files a/x and b/x differ\<newline>''"

text \<open>The example of section 8 of the specification, and the file and hunk it describes.\<close>

definition unifiedOne :: string where
  "unifiedOne = ''--- a/f.txt\<newline>+++ b/f.txt\<newline>@@ -1,1 +1,2 @@\<newline>-old\<newline>+new1\<newline>+new2\<newline>''"

definition unifiedOneHunk :: Hunk where
  "unifiedOneHunk =
     \<lparr>beforeStart = 1, beforeCount = 1, afterStart = 1, afterCount = 2,
      hunkLines = [\<lparr>role = Removed, content = ''old''\<rparr>,
                   \<lparr>role = Added, content = ''new1''\<rparr>,
                   \<lparr>role = Added, content = ''new2''\<rparr>]\<rparr>"

definition unifiedOneFile :: FileData where
  "unifiedOneFile =
     \<lparr>source = ''a/f.txt'', destination = ''b/f.txt'', changeKind = ModifiedFile,
      hunks = [unifiedOneHunk]\<rparr>"

text \<open>A unified patch of two files, and the two file records it describes.\<close>

definition unifiedTwo :: string where
  "unifiedTwo = ''--- a/f\<newline>+++ b/f\<newline>@@ -1 +1 @@\<newline>-a\<newline>+b\<newline>--- a/g\<newline>+++ b/g\<newline>@@ -1 +1 @@\<newline>-c\<newline>+d\<newline>''"

definition unifiedTwoFiles :: "FileData list" where
  "unifiedTwoFiles =
     [\<lparr>source = ''a/f'', destination = ''b/f'', changeKind = ModifiedFile,
       hunks = [\<lparr>beforeStart = 1, beforeCount = 1, afterStart = 1, afterCount = 1,
                 hunkLines = [\<lparr>role = Removed, content = ''a''\<rparr>,
                              \<lparr>role = Added, content = ''b''\<rparr>]\<rparr>]\<rparr>,
      \<lparr>source = ''a/g'', destination = ''b/g'', changeKind = ModifiedFile,
       hunks = [\<lparr>beforeStart = 1, beforeCount = 1, afterStart = 1, afterCount = 1,
                 hunkLines = [\<lparr>role = Removed, content = ''c''\<rparr>,
                              \<lparr>role = Added, content = ''d''\<rparr>]\<rparr>]\<rparr>]"

text \<open>A git patch whose second header names no pair of paths; a unified patch whose
  second file has a corrupted hunk header; a text in which both passes find a segment
  that fails.\<close>

definition gitBadHeader :: string where
  "gitBadHeader = ''diff --git a/f b/f\<newline>--- a/f\<newline>+++ b/f\<newline>@@ -1 +1 @@\<newline>-a\<newline>+b\<newline>diff --git x\<newline>''"

definition unifiedBadHunk :: string where
  "unifiedBadHunk = ''--- a/f\<newline>+++ b/f\<newline>@@ -1 +1 @@\<newline>-a\<newline>+b\<newline>--- a/g\<newline>+++ b/g\<newline>@@ bad @@\<newline>''"

definition bothBad :: string where
  "bothBad = ''diff --git x\<newline>--- a/g\<newline>+++ b/g\<newline>@@ bad @@\<newline>''"

section \<open>Properties of the Android helpers\<close>

lemma compare_trans: "compare u v \<le> 0 \<Longrightarrow> compare v w \<le> 0 \<Longrightarrow> compare u w \<le> 0"
proof (induction u v arbitrary: w rule: compare.induct)
  case 1
  then show ?case by simp
next
  case (2 x xs)
  then show ?case by (cases w) (auto split: if_splits)
next
  case (3 y ys)
  then show ?case by (cases w) (auto split: if_splits)
next
  case (4 x xs y ys)
  then show ?case by (cases w) (auto split: if_splits)
qed

lemma compare_flip: "compare v w \<ge> 0 \<longleftrightarrow> compare w v \<le> 0"
  by (induction v w rule: compare.induct) auto

lemma versionGe_mono: "versionLe v w \<Longrightarrow> versionGe v c \<Longrightarrow> versionGe w c"
  unfolding versionLe_def versionGe_def compare_flip
  using compare_trans by blast

lemma versionGe_6_imp_5_13: "versionGe u [6, 0] \<Longrightarrow> versionGe u [5, 13]"
  unfolding versionGe_def by (cases u) (auto split: if_splits)

text \<open>
  Claim C9. For every serial number, \<open>adbSelector\<close> returns the one-element list
  \<open>["-d"]\<close> exactly when the serial number starts with \<open>????\<close>; in every other case
  it returns the two-element list \<open>["-s", serialNumber]\<close>.
\<close>

theorem adbSelector_spec:
  "(adbSelector s = [''-d''] \<longleftrightarrow> prefix ''????'' s)
   \<and> (\<not> prefix ''????'' s \<longrightarrow> adbSelector s = [''-s'', s])"
  by (simp add: adbSelector_def)

theorem adbSelector_spec_witness:
  "(adbSelector ''????1234'' = [''-d''] \<longleftrightarrow> prefix ''????'' ''????1234'')
   \<and> \<not> prefix ''????'' ''emulator-5554''
   \<and> adbSelector ''emulator-5554'' = [''-s'', ''emulator-5554'']"
  using adbSelector_spec [of "''????1234''"] adbSelector_spec [of "''emulator-5554''"]
  by simp

text \<open>
  Claim C10. \<open>defaultMinimumSDK\<close> has a value for every argument: 16 for the null
  pointer, 23 for a Qt version of at least 6.0, 21 for one of at least 5.13 and below
  6.0, and 16 for any other version. It is monotone: a later Qt version never gets a
  smaller API level, and the null pointer gets the least one.
\<close>

theorem defaultMinimumSDK_cases:
  "defaultMinimumSDK None = 16
   \<and> (versionGe q [6, 0] \<longrightarrow> defaultMinimumSDK (Some q) = 23)
   \<and> (versionGe q [5, 13] \<and> \<not> versionGe q [6, 0] \<longrightarrow> defaultMinimumSDK (Some q) = 21)
   \<and> (\<not> versionGe q [5, 13] \<longrightarrow> defaultMinimumSDK (Some q) = 16)
   \<and> (versionLe v w \<longrightarrow> defaultMinimumSDK (Some v) \<le> defaultMinimumSDK (Some w))
   \<and> defaultMinimumSDK None \<le> defaultMinimumSDK x"
proof -
  have mono: "versionLe v w \<Longrightarrow> defaultMinimumSDK (Some v) \<le> defaultMinimumSDK (Some w)"
    using versionGe_mono [of v w] versionGe_6_imp_5_13
    by (auto simp: defaultMinimumSDK_def)
  show ?thesis
    using mono versionGe_6_imp_5_13 [of q] by (auto simp: defaultMinimumSDK_def)
qed

theorem defaultMinimumSDK_cases_witness:
  "versionGe [6, 5, 0] [6, 0] \<and> defaultMinimumSDK (Some [6, 5, 0]) = 23
   \<and> versionGe [5, 15, 2] [5, 13] \<and> \<not> versionGe [5, 15, 2] [6, 0]
   \<and> defaultMinimumSDK (Some [5, 15, 2]) = 21
   \<and> \<not> versionGe [5, 12, 9] [5, 13] \<and> defaultMinimumSDK (Some [5, 12, 9]) = 16
   \<and> versionLe [5, 15, 2] [6, 5, 0]
   \<and> defaultMinimumSDK (Some [5, 15, 2]) \<le> defaultMinimumSDK (Some [6, 5, 0])"
  using defaultMinimumSDK_cases [of "[6, 5, 0]" "[5, 15, 2]" "[6, 5, 0]" None]
    defaultMinimumSDK_cases [of "[5, 15, 2]" "[5, 15, 2]" "[6, 5, 0]" None]
    defaultMinimumSDK_cases [of "[5, 12, 9]" "[5, 15, 2]" "[6, 5, 0]" None]
  by (simp add: versionGe_def versionLe_def)

section \<open>Properties of the patch reader\<close>

subsection \<open>The results a pass leaves\<close>

lemma results_logEvent [simp]: "results (logEvent e p) = results p"
  by (simp add: logEvent_def)

lemma results_setProgressRange [simp]: "results (setProgressRange lo hi p) = results p"
  by (simp add: setProgressRange_def)

lemma results_setProgressValue [simp]: "results (setProgressValue v p) = results p"
  by (simp add: setProgressValue_def)

lemma results_addResult [simp]: "results (addResult r p) = results p @ [r]"
  by (simp add: addResult_def)

lemma results_isCanceled [simp]: "results (snd (isCanceled p)) = results p"
  by (simp add: isCanceled_def split: option.splits nat.splits)

lemma results_isCanceled': "isCanceled p = (b, p1) \<Longrightarrow> results p1 = results p"
  using results_isCanceled [of p] by simp

lemma detectPatches_results:
  "detectPatches P segs patches p = (r, p') \<Longrightarrow> results p' = results p"
proof (induction segs arbitrary: patches p)
  case Nil
  then show ?case by simp
next
  case (Cons fileDiff rest)
  obtain b p1 where ic: "isCanceled p = (b, p1)" by force
  then have r1: "results p1 = results p" by (rule results_isCanceled')
  show ?case
  proof (cases b)
    case True
    with Cons.prems ic r1 show ?thesis by simp
  next
    case False
    show ?thesis
    proof (cases "detectFileData P fileDiff")
      case None
      with Cons.prems ic r1 False show ?thesis by auto
    next
      case (Some a)
      obtain fd rem where a: "a = (fd, rem)" by force
      from Cons.prems ic False Some a
      have "detectPatches P rest (patches @ [\<lparr>patch = rem, fileData = fd\<rparr>])
              (logEvent DetectSegment p1) = (r, p')" by simp
      from Cons.IH [OF this] r1 show ?thesis by simp
    qed
  qed
qed

lemma detectPatches_Some:
  "detectPatches P segs patches p = (Some out, p') \<Longrightarrow>
     map (\<lambda>i. Some (fileData i, patch i)) out
       = map (\<lambda>i. Some (fileData i, patch i)) patches @ map (detectFileData P) segs"
proof (induction segs arbitrary: patches p)
  case Nil
  then show ?case by simp
next
  case (Cons fileDiff rest)
  obtain b p1 where ic: "isCanceled p = (b, p1)" by force
  show ?case
  proof (cases b)
    case True
    with Cons.prems ic show ?thesis by simp
  next
    case False
    show ?thesis
    proof (cases "detectFileData P fileDiff")
      case None
      with Cons.prems ic False show ?thesis by auto
    next
      case (Some a)
      obtain fd rem where a: "a = (fd, rem)" by force
      from Cons.prems ic False Some a
      have "detectPatches P rest (patches @ [\<lparr>patch = rem, fileData = fd\<rparr>])
              (logEvent DetectSegment p1) = (Some out, p')" by simp
      from Cons.IH [OF this] Some a show ?thesis by simp
    qed
  qed
qed

lemma detectPatches_length:
  "detectPatches P segs patches p = (Some out, p') \<Longrightarrow> length out = length patches + length segs"
proof -
  assume "detectPatches P segs patches p = (Some out, p')"
  from detectPatches_Some [OF this]
  have "length (map (\<lambda>i. Some (fileData i, patch i)) out)
      = length (map (\<lambda>i. Some (fileData i, patch i)) patches @ map (detectFileData P) segs)"
    by simp
  then show ?thesis by simp
qed

lemma readPatches_results:
  "readPatches P pis i acc p = (r, p') \<Longrightarrow> results p' = results p"
proof (induction pis arbitrary: i acc p)
  case Nil
  then show ?case by simp
next
  case (Cons patchInfo rest)
  obtain b p1 where ic: "isCanceled p = (b, p1)" by force
  then have r1: "results p1 = results p" by (rule results_isCanceled')
  show ?case
  proof (cases b)
    case True
    with Cons.prems ic r1 show ?thesis by simp
  next
    case False
    show ?thesis
    proof (cases "readPatchInfo P patchInfo")
      case None
      with Cons.prems ic r1 False show ?thesis by (auto simp: Let_def)
    next
      case (Some fd)
      from Cons.prems ic False Some
      have "readPatches P rest (i + 1) (acc @ [fd])
              (logEvent ReadSegment (setProgressValue i p1)) = (r, p')" by (simp add: Let_def)
      from Cons.IH [OF this] r1 show ?thesis by simp
    qed
  qed
qed

lemma readPatches_Some:
  "readPatches P pis i acc p = (Some fds, p') \<Longrightarrow>
     map Some fds = map Some acc @ map (readPatchInfo P) pis"
proof (induction pis arbitrary: i acc p)
  case Nil
  then show ?case by simp
next
  case (Cons patchInfo rest)
  obtain b p1 where ic: "isCanceled p = (b, p1)" by force
  show ?case
  proof (cases b)
    case True
    with Cons.prems ic show ?thesis by simp
  next
    case False
    show ?thesis
    proof (cases "readPatchInfo P patchInfo")
      case None
      with Cons.prems ic False show ?thesis by (auto simp: Let_def)
    next
      case (Some fd)
      from Cons.prems ic False Some
      have "readPatches P rest (i + 1) (acc @ [fd])
              (logEvent ReadSegment (setProgressValue i p1)) = (Some fds, p')" by (simp add: Let_def)
      from Cons.IH [OF this] Some show ?thesis by simp
    qed
  qed
qed

lemma readDiffSegments_results:
  "readDiffSegments P segs acc p = (r, p') \<Longrightarrow> results p' = results p"
proof (induction P segs acc p rule: readDiffSegments.induct)
  case (1 P fileDataList p)
  then show ?case by simp
next
  case (2 P headerAndChunks fileDataList p)
  then show ?case by (auto split: option.splits)
next
  case (3 P headerAndChunks nxt rest fileDataList p)
  obtain b p1 where ic: "isCanceled p = (b, p1)" by force
  then have r1: "results p1 = results p" by (rule results_isCanceled')
  show ?case
  proof (cases b)
    case True
    with "3.prems" ic r1 show ?thesis by simp
  next
    case False
    show ?thesis
    proof (cases "readDiffHeaderAndChunks P headerAndChunks")
      case None
      with "3.prems" ic r1 False show ?thesis by auto
    next
      case (Some fd)
      from "3.prems" ic False Some
      have "readDiffSegments P (nxt # rest) (fileDataList @ [fd]) (logEvent ReadSegment p1) = (r, p')"
        by simp
      from "3.IH" [OF ic [symmetric] _ Some this] False r1 show ?thesis by simp
    qed
  qed
qed

lemma readDiffSegments_Some:
  "readDiffSegments P segs acc p = (Some fds, p') \<Longrightarrow>
     segs \<noteq> [] \<and> map Some fds = map Some acc @ map (readDiffHeaderAndChunks P) segs"
proof (induction P segs acc p rule: readDiffSegments.induct)
  case (1 P fileDataList p)
  then show ?case by simp
next
  case (2 P headerAndChunks fileDataList p)
  then show ?case by (auto split: option.splits)
next
  case (3 P headerAndChunks nxt rest fileDataList p)
  obtain b p1 where ic: "isCanceled p = (b, p1)" by force
  show ?case
  proof (cases b)
    case True
    with "3.prems" ic show ?thesis by simp
  next
    case False
    show ?thesis
    proof (cases "readDiffHeaderAndChunks P headerAndChunks")
      case None
      with "3.prems" ic False show ?thesis by auto
    next
      case (Some fd)
      from "3.prems" ic False Some
      have "readDiffSegments P (nxt # rest) (fileDataList @ [fd]) (logEvent ReadSegment p1)
              = (Some fds, p')"
        by simp
      from "3.IH" [OF ic [symmetric] _ Some this] False Some show ?thesis by simp
    qed
  qed
qed

lemma readGitSegment_compose:
  assumes "map (\<lambda>i. Some (fileData i, patch i)) pis = map (detectFileData P) segs"
    and "map Some fds = map (readPatchInfo P) pis"
  shows "map Some fds = map (readGitSegment P) segs"
  using assms
proof (induction segs arbitrary: pis fds)
  case Nil
  then show ?case by simp
next
  case (Cons seg segs)
  from Cons.prems(1) obtain i pis' where pis: "pis = i # pis'"
    and d: "detectFileData P seg = Some (fileData i, patch i)"
    and rest: "map (\<lambda>i. Some (fileData i, patch i)) pis' = map (detectFileData P) segs"
    by (cases pis) auto
  from Cons.prems(2) pis obtain fd fds' where fds: "fds = fd # fds'"
    and r: "readPatchInfo P i = Some fd"
    and rest': "map Some fds' = map (readPatchInfo P) pis'"
    by (cases fds) auto
  have "readGitSegment P seg = Some fd"
    using d r by (cases i) (simp add: readGitSegment_def)
  with Cons.IH [OF rest rest'] fds show ?case by simp
qed

lemma map_Some_no_None:
  "map Some fds = map f segs \<Longrightarrow> seg \<in> set segs \<Longrightarrow> f seg \<noteq> None"
proof
  assume m: "map Some fds = map f segs" and s: "seg \<in> set segs" and n: "f seg = None"
  from s have "f seg \<in> set (map f segs)" by simp
  with m have "f seg \<in> set (map Some fds)" by simp
  with n show False by auto
qed

lemma map_Some_member:
  "map Some fds = map f segs \<Longrightarrow> fd \<in> set fds \<Longrightarrow> \<exists>seg. f seg = Some fd"
proof -
  assume m: "map Some fds = map f segs" and s: "fd \<in> set fds"
  from s have "Some fd \<in> set (map Some fds)" by simp
  with m have "Some fd \<in> set (map f segs)" by simp
  then show ?thesis by auto
qed

text \<open>What a pass leaves in the promise: nothing new, or one list that is not empty and
  holds one entry per segment, each the parse of its segment, in the order of the
  segments.\<close>

lemma readGitPatch_results:
  "results (readGitPatch P p patchText) = results p
   \<or> (\<exists>fds. results (readGitPatch P p patchText) = results p @ [fds] \<and> fds \<noteq> []
          \<and> map Some fds = map (readGitSegment P) (gitSegments P patchText))"
proof (cases "detectPatches P (gitSegments P patchText) [] p")
  case (Pair r p1)
  note dp = Pair
  have r1: "results p1 = results p" using detectPatches_results [OF dp] .
  show ?thesis
  proof (cases r)
    case None
    with dp r1 show ?thesis by (simp add: readGitPatch_def)
  next
    case (Some pis)
    note pis = Some
    have m1: "map (\<lambda>i. Some (fileData i, patch i)) pis = map (detectFileData P) (gitSegments P patchText)"
      using detectPatches_Some [of P "gitSegments P patchText" "[]" p pis p1] dp pis by simp
    show ?thesis
    proof (cases "pis = []")
      case True
      with dp pis r1 show ?thesis by (simp add: readGitPatch_def)
    next
      case False
      obtain r2 p2 where rp: "readPatches P pis 0 [] (setProgressRange 0 (int (length pis)) p1) = (r2, p2)"
        by force
      have r2: "results p2 = results p" using readPatches_results [OF rp] r1 by simp
      show ?thesis
      proof (cases r2)
        case None
        with dp pis False rp r2 show ?thesis by (simp add: readGitPatch_def)
      next
        case (Some fds)
        have m2: "map Some fds = map (readPatchInfo P) pis"
          using readPatches_Some [of P pis 0 "[]" _ fds p2] rp Some by simp
        have ne: "fds \<noteq> []" using m2 False by auto
        have "results (readGitPatch P p patchText) = results p @ [fds]"
          using dp pis False rp r2 Some by (simp add: readGitPatch_def)
        with ne readGitSegment_compose [OF m1 m2] show ?thesis by blast
      qed
    qed
  qed
qed

lemma readDiffPatch_results:
  "results (readDiffPatch P p patchText) = results p
   \<or> (\<exists>fds. results (readDiffPatch P p patchText) = results p @ [fds] \<and> fds \<noteq> []
          \<and> map Some fds = map (readDiffHeaderAndChunks P) (diffSegments P patchText))"
proof (cases "diffSegments P patchText")
  case Nil
  then show ?thesis by (simp add: readDiffPatch_def)
next
  case (Cons s ss)
  obtain b p1 where ic: "isCanceled p = (b, p1)" by force
  then have r1: "results p1 = results p" by (rule results_isCanceled')
  show ?thesis
  proof (cases b)
    case True
    with Cons ic r1 show ?thesis by (simp add: readDiffPatch_def)
  next
    case False
    obtain r2 p2 where rd: "readDiffSegments P (s # ss) [] p1 = (r2, p2)" by force
    have r2: "results p2 = results p" using readDiffSegments_results [OF rd] r1 by simp
    show ?thesis
    proof (cases r2)
      case None
      with Cons ic False rd r2 show ?thesis by (simp add: readDiffPatch_def)
    next
      case (Some fds)
      have m: "map Some fds = map (readDiffHeaderAndChunks P) (s # ss)"
        using readDiffSegments_Some [of P "s # ss" "[]" p1 fds p2] rd Some by simp
      then have ne: "fds \<noteq> []" by auto
      have "results (readDiffPatch P p patchText) = results p @ [fds]"
        using Cons ic False rd r2 Some by (simp add: readDiffPatch_def)
      with ne m Cons show ?thesis by auto
    qed
  qed
qed

text \<open>The three outcomes of \<^verbatim>\<open>readPatch\<close>: no value, the list of the git pass, or the list
  of the unified pass after a git pass without result.\<close>

lemma readPatch_cases:
  "readPatch P patchText = None
   \<or> (\<exists>fds. readPatch P patchText = Some fds \<and> fds \<noteq> []
         \<and> results (gitAttempt P newPromise patchText) = [fds]
         \<and> map Some fds = map (readGitSegment P) (gitSegments P (cropPatch P patchText)))
   \<or> (\<exists>fds. readPatch P patchText = Some fds \<and> fds \<noteq> []
         \<and> results (gitAttempt P newPromise patchText) = []
         \<and> map Some fds = map (readDiffHeaderAndChunks P) (diffSegments P (cropPatch P patchText)))"
proof -
  let ?p0 = "setProgressValue 0 (setProgressRange 0 1 newPromise)"
  let ?c = "cropPatch P patchText"
  let ?g = "readGitPatch P ?p0 ?c"
  have r0: "results ?p0 = []" by (simp add: newPromise_def)
  from readGitPatch_results [of P ?p0 ?c]
  consider (none) "results ?g = []"
    | (git) fds where "results ?g = [fds]" "fds \<noteq> []"
        "map Some fds = map (readGitSegment P) (gitSegments P ?c)"
    using r0 by auto
  then show ?thesis
  proof cases
    case none
    from readDiffPatch_results [of P ?g ?c] none
    consider (nothing) "results (readDiffPatch P ?g ?c) = []"
      | (diff) fds where "results (readDiffPatch P ?g ?c) = [fds]" "fds \<noteq> []"
          "map Some fds = map (readDiffHeaderAndChunks P) (diffSegments P ?c)"
      by auto
    then show ?thesis
    proof cases
      case nothing
      with none show ?thesis
        by (simp add: readPatch_def readPatchWithPromise_def resultCount_def Let_def)
    next
      case diff
      with none show ?thesis
        by (simp add: readPatch_def readPatchWithPromise_def resultCount_def Let_def gitAttempt_def)
    qed
  next
    case git
    then show ?thesis
      by (simp add: readPatch_def readPatchWithPromise_def resultCount_def Let_def gitAttempt_def)
  qed
qed

lemma gitAttempt_no_header:
  "gitSegments P (cropPatch P patchText) = [] \<Longrightarrow>
     results (gitAttempt P newPromise patchText) = []"
  by (simp add: gitAttempt_def readGitPatch_def newPromise_def)

subsection \<open>The events a pass logs\<close>

lemma events_logEvent [simp]: "events (logEvent e p) = events p @ [e]"
  by (simp add: logEvent_def)

lemma events_setProgressRange [simp]:
  "events (setProgressRange lo hi p) = events p @ [SetProgressRange lo hi]"
  by (simp add: setProgressRange_def)

lemma events_setProgressValue [simp]:
  "events (setProgressValue v p) = events p @ [SetProgressValue v]"
  by (simp add: setProgressValue_def)

lemma events_addResult [simp]: "events (addResult r p) = events p @ [AddResult]"
  by (simp add: addResult_def)

lemma pollsUntilCancel_logEvent [simp]: "pollsUntilCancel (logEvent e p) = pollsUntilCancel p"
  by (simp add: logEvent_def)

lemma pollsUntilCancel_setProgressRange [simp]:
  "pollsUntilCancel (setProgressRange lo hi p) = pollsUntilCancel p"
  by (simp add: setProgressRange_def)

lemma pollsUntilCancel_setProgressValue [simp]:
  "pollsUntilCancel (setProgressValue v p) = pollsUntilCancel p"
  by (simp add: setProgressValue_def)

lemma pollsUntilCancel_addResult [simp]:
  "pollsUntilCancel (addResult r p) = pollsUntilCancel p"
  by (simp add: addResult_def)

lemma isCanceled_True:
  "isCanceled p = (True, p1) \<Longrightarrow>
     events p1 = events p @ [IsCanceled True] \<and> pollsUntilCancel p1 = Some 0
     \<and> pollsUntilCancel p = Some 0"
  by (auto simp: isCanceled_def split: option.splits nat.splits)

lemma isCanceled_False:
  "isCanceled p = (False, p1) \<Longrightarrow>
     events p1 = events p @ [IsCanceled False] \<and> pollsUntilCancel p \<noteq> Some 0"
  by (auto simp: isCanceled_def split: option.splits nat.splits)

lemma isCanceled_now:
  "pollsUntilCancel p = Some 0 \<Longrightarrow> isCanceled p = (True, logEvent (IsCanceled True) p)"
  by (simp add: isCanceled_def)

lemma newEvents_append: "events p' = events p @ es \<Longrightarrow> newEvents p p' = es"
  by (simp add: newEvents_def)

lemma pollGuarded_mono: "pollGuarded c es \<Longrightarrow> c \<le> d \<Longrightarrow> pollGuarded d es"
proof (induction es arbitrary: c d)
  case Nil
  then show ?case by simp
next
  case (Cons e es)
  show ?case
  proof (cases "e = IsCanceled False")
    case True
    with Cons.prems Cons.IH [of "Suc c" "Suc d"] show ?thesis by simp
  next
    case False
    show ?thesis
    proof (cases "e = DetectSegment \<or> e = ReadSegment")
      case True
      with False Cons.prems Cons.IH [of "c - 1" "d - 1"] show ?thesis by auto
    next
      case no: False
      with False Cons.prems Cons.IH [of c d] show ?thesis by simp
    qed
  qed
qed

lemma pollGuarded_append:
  "pollGuarded c es \<Longrightarrow> pollGuarded 0 es' \<Longrightarrow> pollGuarded c (es @ es')"
proof (induction es arbitrary: c)
  case Nil
  then show ?case using pollGuarded_mono [of 0 es' c] by simp
next
  case (Cons e es)
  then show ?case by (auto split: if_splits)
qed

lemma pollDirect_mono: "pollDirect False es \<Longrightarrow> pollDirect b es"
  by (induction es arbitrary: b) (auto split: if_splits)

lemma pollDirect_append:
  "pollDirect b es \<Longrightarrow> pollDirect False es' \<Longrightarrow> pollDirect b (es @ es')"
proof (induction es arbitrary: b)
  case Nil
  then show ?case using pollDirect_mono by simp
next
  case (Cons e es)
  then show ?case by (auto split: if_splits)
qed

lemma endsAtCancel_append:
  "IsCanceled True \<notin> set es \<Longrightarrow> endsAtCancel (es @ es') = endsAtCancel es'"
  by (induction es) auto

lemma endsAtCancel_clean: "IsCanceled True \<notin> set es \<Longrightarrow> endsAtCancel es"
  using endsAtCancel_append [of es "[]"] by simp

lemma quietAfterCancel_append:
  "IsCanceled True \<notin> set es \<Longrightarrow> quietAfterCancel (es @ es') = quietAfterCancel es'"
  by (induction es) auto

lemma endsAtCancel_quiet: "endsAtCancel es \<Longrightarrow> quietAfterCancel es"
  by (induction es) (auto split: if_splits)

lemma endsAtCancel_quiet_again:
  "endsAtCancel es \<Longrightarrow> IsCanceled True \<in> set es \<Longrightarrow> quietAfterCancel (es @ [IsCanceled True])"
  by (induction es) (auto split: if_splits)

lemma reportLog_append [simp]: "reportLog (es @ es') = reportLog es @ reportLog es'"
  by (simp add: reportLog_def)

lemma reportLog_Nil [simp]: "reportLog [] = []"
  by (simp add: reportLog_def)

lemma reportLog_Cons [simp]:
  "reportLog (e # es) = (if isReport e then e # reportLog es else reportLog es)"
  by (simp add: reportLog_def)

lemma progressValues_append [simp]:
  "progressValues (es @ es') = progressValues es @ progressValues es'"
  by (induction es rule: progressValues.induct) auto

lemma progressRanges_append [simp]:
  "progressRanges (es @ es') = progressRanges es @ progressRanges es'"
  by (induction es rule: progressRanges.induct) auto

lemma progressValues_reportLog: "progressValues (reportLog es) = progressValues es"
  by (induction es rule: progressValues.induct) auto

lemma alternates_bounds:
  "alternates i rl \<Longrightarrow> v \<in> set (progressValues rl) \<Longrightarrow> i \<le> v \<and> 2 * (v - i) + 2 \<le> int (length rl)"
proof (induction i rl rule: alternates.induct)
  case (1 i)
  then show ?case by simp
next
  case (2 i a)
  then show ?case by simp
next
  case (3 i a b es)
  then have a: "a = SetProgressValue i" and b: "b = ReadSegment" and rest: "alternates (i + 1) es"
    by simp_all
  from "3.prems"(2) a b have "v = i \<or> v \<in> set (progressValues es)" by auto
  then show ?case
  proof
    assume "v = i"
    then show ?thesis by simp
  next
    assume "v \<in> set (progressValues es)"
    from "3.IH" [OF rest this] show ?thesis by simp
  qed
qed

lemma alternates_sorted: "alternates i rl \<Longrightarrow> sorted (progressValues rl)"
proof (induction i rl rule: alternates.induct)
  case (1 i)
  then show ?case by simp
next
  case (2 i a)
  then show ?case by simp
next
  case (3 i a b es)
  then have a: "a = SetProgressValue i" and b: "b = ReadSegment" and rest: "alternates (i + 1) es"
    by simp_all
  have "\<forall>v\<in>set (progressValues es). i \<le> v"
    using alternates_bounds [OF rest] by fastforce
  with "3.IH" rest a b show ?case by simp
qed

text \<open>The first loop of \<^verbatim>\<open>readGitPatch\<close>.\<close>

lemma detectPatches_events:
  "detectPatches P segs patches p = (r, p') \<Longrightarrow>
     \<exists>es. events p' = events p @ es \<and> pollGuarded 0 es \<and> endsAtCancel es
        \<and> reportLog es = [] \<and> progressRanges es = []
        \<and> (IsCanceled True \<in> set es \<longrightarrow> r = None \<and> pollsUntilCancel p' = Some 0)
        \<and> pollDirect False es"
proof (induction segs arbitrary: patches p)
  case Nil
  then show ?case by simp
next
  case (Cons fileDiff rest)
  obtain b p1 where ic: "isCanceled p = (b, p1)" by force
  show ?case
  proof (cases b)
    case True
    with Cons.prems ic isCanceled_True [of p p1] show ?thesis by auto
  next
    case False
    note e1 = isCanceled_False [of p p1]
    show ?thesis
    proof (cases "detectFileData P fileDiff")
      case None
      with Cons.prems ic False have "r = None" "p' = logEvent DetectSegment p1" by auto
      with e1 ic False have "events p' = events p @ [IsCanceled False, DetectSegment]" by simp
      then show ?thesis by auto
    next
      case (Some a)
      obtain fd rem where a: "a = (fd, rem)" by force
      from Cons.prems ic False Some a
      have "detectPatches P rest (patches @ [\<lparr>patch = rem, fileData = fd\<rparr>])
              (logEvent DetectSegment p1) = (r, p')" by simp
      from Cons.IH [OF this] obtain es where
        es: "events p' = events (logEvent DetectSegment p1) @ es" "pollGuarded 0 es"
          "endsAtCancel es" "reportLog es = []" "progressRanges es = []"
          "IsCanceled True \<in> set es \<longrightarrow> r = None \<and> pollsUntilCancel p' = Some 0"
          "pollDirect False es"
        by blast
      let ?es = "IsCanceled False # DetectSegment # es"
      have "events p' = events p @ ?es" using es(1) e1 ic False by simp
      moreover have "pollGuarded 0 ?es" using es(2) by simp
      moreover have "endsAtCancel ?es" using es(3) by simp
      moreover have "reportLog ?es = []" using es(4) by simp
      moreover have "progressRanges ?es = []" using es(5) by simp
      moreover have "IsCanceled True \<in> set ?es \<longrightarrow> r = None \<and> pollsUntilCancel p' = Some 0"
        using es(6) by simp
      moreover have "pollDirect False ?es" using es(7) by simp
      ultimately show ?thesis by blast
    qed
  qed
qed

text \<open>The second loop of \<^verbatim>\<open>readGitPatch\<close>.\<close>

lemma readPatches_events:
  "readPatches P pis i acc p = (r, p') \<Longrightarrow>
     \<exists>es. events p' = events p @ es \<and> pollGuarded 0 es \<and> endsAtCancel es
        \<and> alternates i (reportLog es) \<and> length (reportLog es) \<le> 2 * length pis
        \<and> progressRanges es = []
        \<and> (IsCanceled True \<in> set es \<longrightarrow> r = None \<and> pollsUntilCancel p' = Some 0)
        \<and> pollDirect False es"
proof (induction pis arbitrary: i acc p)
  case Nil
  then show ?case by simp
next
  case (Cons patchInfo rest)
  obtain b p1 where ic: "isCanceled p = (b, p1)" by force
  show ?case
  proof (cases b)
    case True
    with Cons.prems ic isCanceled_True [of p p1] show ?thesis by auto
  next
    case False
    note e1 = isCanceled_False [of p p1]
    let ?p2 = "logEvent ReadSegment (setProgressValue i p1)"
    have e2: "events ?p2 = events p @ [IsCanceled False, SetProgressValue i, ReadSegment]"
      using e1 ic False by simp
    show ?thesis
    proof (cases "readPatchInfo P patchInfo")
      case None
      with Cons.prems ic False have "r = None" "p' = ?p2" by (auto simp: Let_def)
      with e2 have "events p' = events p @ [IsCanceled False, SetProgressValue i, ReadSegment]"
        by simp
      then show ?thesis by auto
    next
      case (Some fd)
      from Cons.prems ic False Some
      have "readPatches P rest (i + 1) (acc @ [fd]) ?p2 = (r, p')" by (simp add: Let_def)
      from Cons.IH [OF this] obtain es where
        es: "events p' = events ?p2 @ es" "pollGuarded 0 es" "endsAtCancel es"
          "alternates (i + 1) (reportLog es)" "length (reportLog es) \<le> 2 * length rest"
          "progressRanges es = []"
          "IsCanceled True \<in> set es \<longrightarrow> r = None \<and> pollsUntilCancel p' = Some 0"
          "pollDirect False es"
        by blast
      let ?es = "IsCanceled False # SetProgressValue i # ReadSegment # es"
      have "events p' = events p @ ?es" using es(1) e2 by simp
      moreover have "pollGuarded 0 ?es" using es(2) by simp
      moreover have "endsAtCancel ?es" using es(3) by simp
      moreover have "alternates i (reportLog ?es)" using es(4) by simp
      moreover have "length (reportLog ?es) \<le> 2 * length (patchInfo # rest)" using es(5) by simp
      moreover have "progressRanges ?es = []" using es(6) by simp
      moreover have "IsCanceled True \<in> set ?es \<longrightarrow> r = None \<and> pollsUntilCancel p' = Some 0"
        using es(7) by simp
      moreover have "pollDirect False ?es" using es(8) by simp
      ultimately show ?thesis by blast
    qed
  qed
qed

text \<open>The loop of \<^verbatim>\<open>readDiffPatch\<close>, entered with the poll of the first match done.\<close>

lemma readDiffSegments_events:
  "readDiffSegments P segs acc p = (r, p') \<Longrightarrow>
     \<exists>es. events p' = events p @ es \<and> pollGuarded 1 es \<and> endsAtCancel es
        \<and> progressValues es = [] \<and> progressRanges es = []
        \<and> (IsCanceled True \<in> set es \<longrightarrow> r = None \<and> pollsUntilCancel p' = Some 0)"
proof (induction P segs acc p rule: readDiffSegments.induct)
  case (1 P fileDataList p)
  then show ?case by simp
next
  case (2 P headerAndChunks fileDataList p)
  then have "events p' = events p @ [ReadSegment]" by (auto split: option.splits)
  then show ?case by auto
next
  case (3 P headerAndChunks nxt rest fileDataList p)
  obtain b p1 where ic: "isCanceled p = (b, p1)" by force
  show ?case
  proof (cases b)
    case True
    with "3.prems" ic isCanceled_True [of p p1] show ?thesis by auto
  next
    case False
    note e1 = isCanceled_False [of p p1]
    show ?thesis
    proof (cases "readDiffHeaderAndChunks P headerAndChunks")
      case None
      with "3.prems" ic False have "r = None" "p' = logEvent ReadSegment p1" by auto
      with e1 ic False have "events p' = events p @ [IsCanceled False, ReadSegment]" by simp
      then show ?thesis by auto
    next
      case (Some fd)
      from "3.prems" ic False Some
      have "readDiffSegments P (nxt # rest) (fileDataList @ [fd]) (logEvent ReadSegment p1)
              = (r, p')"
        by simp
      from "3.IH" [OF ic [symmetric] _ Some this] False obtain es where
        es: "events p' = events (logEvent ReadSegment p1) @ es" "pollGuarded 1 es"
          "endsAtCancel es" "progressValues es = []" "progressRanges es = []"
          "IsCanceled True \<in> set es \<longrightarrow> r = None \<and> pollsUntilCancel p' = Some 0"
        by blast
      let ?es = "IsCanceled False # ReadSegment # es"
      have "events p' = events p @ ?es" using es(1) e1 ic False by simp
      moreover have "pollGuarded 1 ?es" using es(2) by simp
      moreover have "endsAtCancel ?es" using es(3) by simp
      moreover have "progressValues ?es = []" using es(4) by simp
      moreover have "progressRanges ?es = []" using es(5) by simp
      moreover have "IsCanceled True \<in> set ?es \<longrightarrow> r = None \<and> pollsUntilCancel p' = Some 0"
        using es(6) by simp
      ultimately show ?thesis by blast
    qed
  qed
qed

text \<open>A promise that is cancelled when a pass starts: the pass polls at most once.\<close>

lemma detectPatches_cancelled:
  "pollsUntilCancel p = Some 0 \<Longrightarrow>
     detectPatches P segs patches p =
       (if segs = [] then (Some patches, p) else (None, logEvent (IsCanceled True) p))"
  by (cases segs) (simp_all add: isCanceled_now)

lemma readGitPatch_cancelled:
  "pollsUntilCancel p = Some 0 \<Longrightarrow>
     readGitPatch P p patchText =
       (if gitSegments P patchText = [] then p else logEvent (IsCanceled True) p)"
  by (simp add: readGitPatch_def detectPatches_cancelled)

lemma readDiffPatch_cancelled:
  "pollsUntilCancel p = Some 0 \<Longrightarrow>
     readDiffPatch P p patchText =
       (if diffSegments P patchText = [] then p else logEvent (IsCanceled True) p)"
  by (cases "diffSegments P patchText") (simp_all add: readDiffPatch_def isCanceled_now)

lemma readGitPatch_events:
  "\<exists>es. events (readGitPatch P p patchText) = events p @ es \<and> pollGuarded 0 es \<and> endsAtCancel es
      \<and> alternates 0 (reportLog es)
      \<and> length (reportLog es) \<le> 2 * length (gitSegments P patchText)
      \<and> (progressRanges es = [] \<or> progressRanges es = [(0, int (length (gitSegments P patchText)))])
      \<and> (IsCanceled True \<in> set es \<longrightarrow>
            pollsUntilCancel (readGitPatch P p patchText) = Some 0
            \<and> results (readGitPatch P p patchText) = results p)
      \<and> pollDirect False es"
proof (cases "detectPatches P (gitSegments P patchText) [] p")
  case (Pair r p1)
  note dp = Pair
  from detectPatches_events [OF dp] obtain es1 where
    es1: "events p1 = events p @ es1" "pollGuarded 0 es1" "endsAtCancel es1"
      "reportLog es1 = []" "progressRanges es1 = []"
      "IsCanceled True \<in> set es1 \<longrightarrow> r = None \<and> pollsUntilCancel p1 = Some 0"
      "pollDirect False es1"
    by blast
  have r1: "results p1 = results p" using detectPatches_results [OF dp] .
  show ?thesis
  proof (cases r)
    case None
    with dp have "readGitPatch P p patchText = p1" by (simp add: readGitPatch_def)
    with es1 r1 show ?thesis by auto
  next
    case (Some pis)
    note pis = Some
    with es1(6) have clean1: "IsCanceled True \<notin> set es1" by auto
    have len: "length pis = length (gitSegments P patchText)"
      using detectPatches_length [of P _ "[]" p pis p1] dp pis by simp
    show ?thesis
    proof (cases "pis = []")
      case True
      with dp pis have "readGitPatch P p patchText = p1" by (simp add: readGitPatch_def)
      with es1 r1 show ?thesis by auto
    next
      case False
      let ?p2 = "setProgressRange 0 (int (length pis)) p1"
      obtain r2 p3 where rp: "readPatches P pis 0 [] ?p2 = (r2, p3)" by force
      from readPatches_events [OF rp] obtain es2 where
        es2: "events p3 = events ?p2 @ es2" "pollGuarded 0 es2" "endsAtCancel es2"
          "alternates 0 (reportLog es2)" "length (reportLog es2) \<le> 2 * length pis"
          "progressRanges es2 = []"
          "IsCanceled True \<in> set es2 \<longrightarrow> r2 = None \<and> pollsUntilCancel p3 = Some 0"
          "pollDirect False es2"
        by blast
      have r3: "results p3 = results p" using readPatches_results [OF rp] r1 by simp
      let ?mid = "es1 @ SetProgressRange 0 (int (length pis)) # es2"
      have ev3: "events p3 = events p @ ?mid" using es1(1) es2(1) by simp
      have g3: "pollGuarded 0 ?mid"
        using pollGuarded_append [OF es1(2), of "SetProgressRange 0 (int (length pis)) # es2"] es2(2)
        by simp
      have c3: "endsAtCancel ?mid"
        using endsAtCancel_append [OF clean1] es2(3) by simp
      have d3: "pollDirect False ?mid"
        using pollDirect_append [OF es1(7), of "SetProgressRange 0 (int (length pis)) # es2"] es2(8)
        by simp
      have a3: "alternates 0 (reportLog ?mid)" using es1(4) es2(4) by simp
      have l3: "length (reportLog ?mid) \<le> 2 * length (gitSegments P patchText)"
        using es1(4) es2(5) len by simp
      have pr3: "progressRanges ?mid = [(0, int (length (gitSegments P patchText)))]"
        using es1(5) es2(6) len by simp
      show ?thesis
      proof (cases r2)
        case None
        with dp pis False rp have fin: "readGitPatch P p patchText = p3"
          by (simp add: readGitPatch_def)
        have "IsCanceled True \<in> set ?mid \<longrightarrow> pollsUntilCancel p3 = Some 0"
          using clean1 es2(7) by auto
        with fin ev3 g3 c3 a3 l3 pr3 r3 d3 show ?thesis by auto
      next
        case (Some fds)
        with dp pis False rp have fin: "readGitPatch P p patchText = addResult fds p3"
          by (simp add: readGitPatch_def)
        from Some es2(7) have clean2: "IsCanceled True \<notin> set es2" by auto
        let ?all = "?mid @ [AddResult]"
        have "events (readGitPatch P p patchText) = events p @ ?all" using fin ev3 by simp
        moreover have "pollGuarded 0 ?all" using pollGuarded_append [OF g3, of "[AddResult]"] by simp
        moreover have "endsAtCancel ?all"
          using clean1 clean2 by (intro endsAtCancel_clean) simp
        moreover have "alternates 0 (reportLog ?all)" using a3 by simp
        moreover have "length (reportLog ?all) \<le> 2 * length (gitSegments P patchText)" using l3 by simp
        moreover have "progressRanges ?all = [(0, int (length (gitSegments P patchText)))]"
          using pr3 by simp
        moreover have "IsCanceled True \<notin> set ?all" using clean1 clean2 by simp
        moreover have "pollDirect False ?all"
          using pollDirect_append [OF d3, of "[AddResult]"] by simp
        ultimately show ?thesis by blast
      qed
    qed
  qed
qed

lemma readDiffPatch_events:
  "\<exists>es. events (readDiffPatch P p patchText) = events p @ es \<and> pollGuarded 0 es \<and> endsAtCancel es
      \<and> progressValues es = [] \<and> progressRanges es = []
      \<and> (IsCanceled True \<in> set es \<longrightarrow>
            pollsUntilCancel (readDiffPatch P p patchText) = Some 0
            \<and> results (readDiffPatch P p patchText) = results p)"
proof (cases "diffSegments P patchText")
  case Nil
  then have "readDiffPatch P p patchText = p" by (simp add: readDiffPatch_def)
  then show ?thesis by simp
next
  case (Cons s ss)
  obtain b p1 where ic: "isCanceled p = (b, p1)" by force
  show ?thesis
  proof (cases b)
    case True
    with Cons ic have "readDiffPatch P p patchText = p1" by (simp add: readDiffPatch_def)
    with ic True isCanceled_True [of p p1] results_isCanceled' [OF ic] show ?thesis by auto
  next
    case False
    note e1 = isCanceled_False [of p p1]
    have r1: "results p1 = results p" using results_isCanceled' [OF ic] .
    obtain r2 p2 where rd: "readDiffSegments P (s # ss) [] p1 = (r2, p2)" by force
    from readDiffSegments_events [OF rd] obtain es where
      es: "events p2 = events p1 @ es" "pollGuarded 1 es" "endsAtCancel es"
        "progressValues es = []" "progressRanges es = []"
        "IsCanceled True \<in> set es \<longrightarrow> r2 = None \<and> pollsUntilCancel p2 = Some 0"
      by blast
    have r2: "results p2 = results p" using readDiffSegments_results [OF rd] r1 by simp
    let ?mid = "IsCanceled False # es"
    have ev2: "events p2 = events p @ ?mid" using es(1) e1 ic False by simp
    have g2: "pollGuarded 0 ?mid" using es(2) by simp
    have c2: "endsAtCancel ?mid" using es(3) by simp
    show ?thesis
    proof (cases r2)
      case None
      with Cons ic False rd have fin: "readDiffPatch P p patchText = p2"
        by (simp add: readDiffPatch_def)
      have "IsCanceled True \<in> set ?mid \<longrightarrow> pollsUntilCancel p2 = Some 0" using es(6) by auto
      with fin ev2 g2 c2 es(4,5) r2 show ?thesis by auto
    next
      case (Some fds)
      with Cons ic False rd have fin: "readDiffPatch P p patchText = addResult fds p2"
        by (simp add: readDiffPatch_def)
      from Some es(6) have clean: "IsCanceled True \<notin> set es" by auto
      let ?all = "?mid @ [AddResult]"
      have "events (readDiffPatch P p patchText) = events p @ ?all" using fin ev2 by simp
      moreover have "pollGuarded 0 ?all" using pollGuarded_append [OF g2, of "[AddResult]"] by simp
      moreover have "endsAtCancel ?all" using clean by (intro endsAtCancel_clean) simp
      moreover have "progressValues ?all = []" using es(4) by simp
      moreover have "progressRanges ?all = []" using es(5) by simp
      moreover have "IsCanceled True \<notin> set ?all" using clean by simp
      ultimately show ?thesis by blast
    qed
  qed
qed

text \<open>The polls pending in the course of a pass.\<close>

lemma pollCredit_append:
  "pollCredit c es = Some c' \<Longrightarrow> pollCredit c (es @ es') = pollCredit c' es'"
  by (induction es arbitrary: c) (auto split: if_splits)

lemma newEvents_trans:
  "events q = events p @ a \<Longrightarrow> events r = events q @ b \<Longrightarrow> newEvents p r = a @ b"
  by (simp add: newEvents_def)

lemma detectPatches_credit:
  "detectPatches P segs patches p = (r, p') \<Longrightarrow> pollCredit 0 (newEvents p p') = Some 0"
proof (induction segs arbitrary: patches p)
  case Nil
  then show ?case by (simp add: newEvents_def)
next
  case (Cons fileDiff rest)
  obtain b p1 where ic: "isCanceled p = (b, p1)" by force
  show ?case
  proof (cases b)
    case True
    with Cons.prems ic have "p' = p1" by simp
    with ic True isCanceled_True [of p p1] have "newEvents p p' = [IsCanceled True]"
      by (simp add: newEvents_def)
    then show ?thesis by simp
  next
    case False
    note e1 = isCanceled_False [of p p1]
    show ?thesis
    proof (cases "detectFileData P fileDiff")
      case None
      with Cons.prems ic False have "p' = logEvent DetectSegment p1" by auto
      with e1 ic False have "newEvents p p' = [IsCanceled False, DetectSegment]"
        by (simp add: newEvents_def)
      then show ?thesis by simp
    next
      case (Some a)
      obtain fd rem where a: "a = (fd, rem)" by force
      let ?p2 = "logEvent DetectSegment p1"
      from Cons.prems ic False Some a
      have rec: "detectPatches P rest (patches @ [\<lparr>patch = rem, fileData = fd\<rparr>]) ?p2 = (r, p')"
        by simp
      from detectPatches_events [OF rec] obtain es where es: "events p' = events ?p2 @ es"
        by blast
      have e2: "events ?p2 = events p @ [IsCanceled False, DetectSegment]"
        using e1 ic False by simp
      from Cons.IH [OF rec] newEvents_append [OF es] have "pollCredit 0 es = Some 0" by simp
      moreover have "newEvents p p' = [IsCanceled False, DetectSegment] @ es"
        using newEvents_trans [OF e2 es] .
      ultimately show ?thesis by simp
    qed
  qed
qed

lemma readPatches_credit:
  "readPatches P pis i acc p = (r, p') \<Longrightarrow> pollCredit 0 (newEvents p p') = Some 0"
proof (induction pis arbitrary: i acc p)
  case Nil
  then show ?case by (simp add: newEvents_def)
next
  case (Cons patchInfo rest)
  obtain b p1 where ic: "isCanceled p = (b, p1)" by force
  show ?case
  proof (cases b)
    case True
    with Cons.prems ic have "p' = p1" by simp
    with ic True isCanceled_True [of p p1] have "newEvents p p' = [IsCanceled True]"
      by (simp add: newEvents_def)
    then show ?thesis by simp
  next
    case False
    note e1 = isCanceled_False [of p p1]
    let ?p2 = "logEvent ReadSegment (setProgressValue i p1)"
    have e2: "events ?p2 = events p @ [IsCanceled False, SetProgressValue i, ReadSegment]"
      using e1 ic False by simp
    show ?thesis
    proof (cases "readPatchInfo P patchInfo")
      case None
      with Cons.prems ic False have "p' = ?p2" by (auto simp: Let_def)
      with e2 have "newEvents p p' = [IsCanceled False, SetProgressValue i, ReadSegment]"
        by (simp add: newEvents_def)
      then show ?thesis by simp
    next
      case (Some fd)
      from Cons.prems ic False Some
      have rec: "readPatches P rest (i + 1) (acc @ [fd]) ?p2 = (r, p')" by (simp add: Let_def)
      from readPatches_events [OF rec] obtain es where es: "events p' = events ?p2 @ es"
        by blast
      from Cons.IH [OF rec] newEvents_append [OF es] have "pollCredit 0 es = Some 0" by simp
      moreover have "newEvents p p' = [IsCanceled False, SetProgressValue i, ReadSegment] @ es"
        using newEvents_trans [OF e2 es] .
      ultimately show ?thesis by simp
    qed
  qed
qed

lemma readDiffSegments_credit:
  "readDiffSegments P segs acc p = (r, p') \<Longrightarrow>
     pollCredit 1 (newEvents p p') = Some 0 \<or> pollCredit 1 (newEvents p p') = Some 1"
proof (induction P segs acc p rule: readDiffSegments.induct)
  case (1 P fileDataList p)
  then show ?case by (simp add: newEvents_def)
next
  case (2 P headerAndChunks fileDataList p)
  then have "events p' = events p @ [ReadSegment]" by (auto split: option.splits)
  then have "newEvents p p' = [ReadSegment]" by (simp add: newEvents_def)
  then show ?case by simp
next
  case (3 P headerAndChunks nxt rest fileDataList p)
  obtain b p1 where ic: "isCanceled p = (b, p1)" by force
  show ?case
  proof (cases b)
    case True
    with "3.prems" ic have "p' = p1" by simp
    with ic True isCanceled_True [of p p1] have "newEvents p p' = [IsCanceled True]"
      by (simp add: newEvents_def)
    then show ?thesis by simp
  next
    case False
    note e1 = isCanceled_False [of p p1]
    let ?p2 = "logEvent ReadSegment p1"
    have e2: "events ?p2 = events p @ [IsCanceled False, ReadSegment]"
      using e1 ic False by simp
    show ?thesis
    proof (cases "readDiffHeaderAndChunks P headerAndChunks")
      case None
      with "3.prems" ic False have "p' = ?p2" by auto
      with e2 have "newEvents p p' = [IsCanceled False, ReadSegment]"
        by (simp add: newEvents_def)
      then show ?thesis by simp
    next
      case (Some fd)
      from "3.prems" ic False Some
      have rec: "readDiffSegments P (nxt # rest) (fileDataList @ [fd]) ?p2 = (r, p')"
        by simp
      from readDiffSegments_events [OF rec] obtain es where es: "events p' = events ?p2 @ es"
        by blast
      from "3.IH" [OF ic [symmetric] _ Some rec] False newEvents_append [OF es]
      have "pollCredit 1 es = Some 0 \<or> pollCredit 1 es = Some 1" by simp
      moreover have "newEvents p p' = [IsCanceled False, ReadSegment] @ es"
        using newEvents_trans [OF e2 es] .
      ultimately show ?thesis by simp
    qed
  qed
qed

lemma readGitPatch_credit:
  "pollCredit 0 (newEvents p (readGitPatch P p patchText)) = Some 0"
proof (cases "detectPatches P (gitSegments P patchText) [] p")
  case (Pair r p1)
  note dp = Pair
  from detectPatches_events [OF dp] obtain es1 where es1: "events p1 = events p @ es1"
    by blast
  from detectPatches_credit [OF dp] newEvents_append [OF es1]
  have c1: "pollCredit 0 es1 = Some 0" by simp
  show ?thesis
  proof (cases r)
    case None
    with dp have "readGitPatch P p patchText = p1" by (simp add: readGitPatch_def)
    with c1 newEvents_append [OF es1] show ?thesis by simp
  next
    case (Some pis)
    note pis = Some
    show ?thesis
    proof (cases "pis = []")
      case True
      with dp pis have "readGitPatch P p patchText = p1" by (simp add: readGitPatch_def)
      with c1 newEvents_append [OF es1] show ?thesis by simp
    next
      case False
      let ?p2 = "setProgressRange 0 (int (length pis)) p1"
      obtain r2 p3 where rp: "readPatches P pis 0 [] ?p2 = (r2, p3)" by force
      from readPatches_events [OF rp] obtain es2 where es2: "events p3 = events ?p2 @ es2"
        by blast
      from readPatches_credit [OF rp] newEvents_append [OF es2]
      have c2: "pollCredit 0 es2 = Some 0" by simp
      let ?mid = "es1 @ SetProgressRange 0 (int (length pis)) # es2"
      have ev3: "events p3 = events p @ ?mid" using es1 es2 by simp
      have c3: "pollCredit 0 ?mid = Some 0"
        using pollCredit_append [OF c1, of "SetProgressRange 0 (int (length pis)) # es2"] c2
        by simp
      show ?thesis
      proof (cases r2)
        case None
        with dp pis False rp have "readGitPatch P p patchText = p3"
          by (simp add: readGitPatch_def)
        with c3 newEvents_append [OF ev3] show ?thesis by simp
      next
        case (Some fds)
        with dp pis False rp have fin: "readGitPatch P p patchText = addResult fds p3"
          by (simp add: readGitPatch_def)
        have "events (readGitPatch P p patchText) = events p @ (?mid @ [AddResult])"
          using fin ev3 by simp
        from newEvents_append [OF this] pollCredit_append [OF c3, of "[AddResult]"]
        show ?thesis by simp
      qed
    qed
  qed
qed

lemma readDiffPatch_credit:
  "pollCredit 0 (newEvents p (readDiffPatch P p patchText)) \<noteq> None"
proof (cases "diffSegments P patchText")
  case Nil
  then have "readDiffPatch P p patchText = p" by (simp add: readDiffPatch_def)
  then show ?thesis by (simp add: newEvents_def)
next
  case (Cons s ss)
  obtain b p1 where ic: "isCanceled p = (b, p1)" by force
  show ?thesis
  proof (cases b)
    case True
    with Cons ic have "readDiffPatch P p patchText = p1" by (simp add: readDiffPatch_def)
    with ic True isCanceled_True [of p p1]
    have "newEvents p (readDiffPatch P p patchText) = [IsCanceled True]"
      by (simp add: newEvents_def)
    then show ?thesis by simp
  next
    case False
    note e1 = isCanceled_False [of p p1]
    have ev1: "events p1 = events p @ [IsCanceled False]" using e1 ic False by simp
    obtain r2 p2 where rd: "readDiffSegments P (s # ss) [] p1 = (r2, p2)" by force
    from readDiffSegments_events [OF rd] obtain es where es: "events p2 = events p1 @ es"
      by blast
    from readDiffSegments_credit [OF rd] newEvents_append [OF es]
    obtain c where c: "pollCredit 1 es = Some c" by auto
    have ev2: "events p2 = events p @ (IsCanceled False # es)" using ev1 es by simp
    have c2: "pollCredit 0 (IsCanceled False # es) = Some c" using c by simp
    show ?thesis
    proof (cases r2)
      case None
      with Cons ic False rd have "readDiffPatch P p patchText = p2"
        by (simp add: readDiffPatch_def)
      with c2 newEvents_append [OF ev2] show ?thesis by simp
    next
      case (Some fds)
      with Cons ic False rd have fin: "readDiffPatch P p patchText = addResult fds p2"
        by (simp add: readDiffPatch_def)
      have "events (readDiffPatch P p patchText) = events p @ ((IsCanceled False # es) @ [AddResult])"
        using fin ev2 by simp
      from newEvents_append [OF this] pollCredit_append [OF c2, of "[AddResult]"]
      show ?thesis by simp
    qed
  qed
qed

lemma readPatchWithPromise_events:
  "\<exists>esg esd.
      events (gitAttempt P promise patchText)
        = events promise @ [SetProgressRange 0 1, SetProgressValue 0] @ esg
      \<and> events (readPatchWithPromise P promise patchText) = events (gitAttempt P promise patchText) @ esd
      \<and> pollGuarded 0 (esg @ esd) \<and> quietAfterCancel (esg @ esd)
      \<and> progressValues (esg @ esd) = progressValues esg
      \<and> alternates 0 (reportLog esg)
      \<and> length (reportLog esg) \<le> 2 * length (gitSegments P (cropPatch P patchText))
      \<and> (IsCanceled True \<in> set (esg @ esd) \<longrightarrow>
            results (readPatchWithPromise P promise patchText) = results promise)"
proof -
  let ?p0 = "setProgressValue 0 (setProgressRange 0 1 promise)"
  let ?c = "cropPatch P patchText"
  let ?g = "gitAttempt P promise patchText"
  have g: "?g = readGitPatch P ?p0 ?c" by (simp add: gitAttempt_def)
  have ev0: "events ?p0 = events promise @ [SetProgressRange 0 1, SetProgressValue 0]" by simp
  have r0: "results ?p0 = results promise" by simp
  from readGitPatch_events [of P ?p0 ?c] g obtain esg where
    esg: "events ?g = events ?p0 @ esg" "pollGuarded 0 esg" "endsAtCancel esg"
      "alternates 0 (reportLog esg)" "length (reportLog esg) \<le> 2 * length (gitSegments P ?c)"
      "IsCanceled True \<in> set esg \<longrightarrow> pollsUntilCancel ?g = Some 0 \<and> results ?g = results ?p0"
    by auto
  have evg: "events ?g = events promise @ [SetProgressRange 0 1, SetProgressValue 0] @ esg"
    using esg(1) ev0 by simp
  show ?thesis
  proof (cases "resultCount ?g = 0")
    case False
    then have fin: "readPatchWithPromise P promise patchText = ?g"
      by (simp add: readPatchWithPromise_def gitAttempt_def Let_def)
    have "events (readPatchWithPromise P promise patchText) = events ?g @ []" using fin by simp
    moreover have "quietAfterCancel (esg @ [])" using endsAtCancel_quiet [OF esg(3)] by simp
    moreover have "IsCanceled True \<in> set (esg @ []) \<longrightarrow>
        results (readPatchWithPromise P promise patchText) = results promise"
      using esg(6) fin r0 by simp
    moreover have "pollGuarded 0 (esg @ [])" using esg(2) by simp
    moreover have "progressValues (esg @ []) = progressValues esg" by simp
    ultimately show ?thesis using evg esg(4,5) by blast
  next
    case True
    then have fin: "readPatchWithPromise P promise patchText = readDiffPatch P ?g ?c"
      by (simp add: readPatchWithPromise_def gitAttempt_def Let_def)
    from True have rg: "results ?g = []" by (simp add: resultCount_def)
    from readGitPatch_results [of P ?p0 ?c] g rg r0 have rp: "results promise = []" by auto
    from readDiffPatch_events [of P ?g ?c] fin obtain esd where
      esd: "events (readPatchWithPromise P promise patchText) = events ?g @ esd" "pollGuarded 0 esd"
        "endsAtCancel esd" "progressValues esd = []"
        "IsCanceled True \<in> set esd \<longrightarrow>
           results (readPatchWithPromise P promise patchText) = results ?g"
      by auto
    have guard: "pollGuarded 0 (esg @ esd)" using pollGuarded_append [OF esg(2) esd(2)] .
    have pv: "progressValues (esg @ esd) = progressValues esg" using esd(4) by simp
    show ?thesis
    proof (cases "IsCanceled True \<in> set esg")
      case False
      have "quietAfterCancel (esg @ esd)"
        using quietAfterCancel_append [OF False] endsAtCancel_quiet [OF esd(3)] by simp
      moreover have "IsCanceled True \<in> set (esg @ esd) \<longrightarrow>
          results (readPatchWithPromise P promise patchText) = results promise"
        using False esd(5) rg rp by auto
      ultimately show ?thesis using evg esd(1) guard pv esg(4,5) by blast
    next
      case cancelled: True
      with esg(6) have c0: "pollsUntilCancel ?g = Some 0" by simp
      from readDiffPatch_cancelled [OF c0, of P ?c] fin
      have alt: "readPatchWithPromise P promise patchText = ?g
          \<or> readPatchWithPromise P promise patchText = logEvent (IsCanceled True) ?g"
        by (auto split: if_splits)
      then have res: "results (readPatchWithPromise P promise patchText) = results promise"
        using rg rp by auto
      from alt esd(1) have "esd = [] \<or> esd = [IsCanceled True]" by auto
      then have "quietAfterCancel (esg @ esd)"
        using endsAtCancel_quiet [OF esg(3)] endsAtCancel_quiet_again [OF esg(3) cancelled]
        by auto
      with res show ?thesis using evg esd(1) guard pv esg(4,5) by blast
    qed
  qed
qed

lemma parseEvents_credit: "pollCredit 0 (parseEvents P promise patchText) \<noteq> None"
proof -
  let ?p0 = "setProgressValue 0 (setProgressRange 0 1 promise)"
  let ?c = "cropPatch P patchText"
  let ?g = "readGitPatch P ?p0 ?c"
  let ?f = "readPatchWithPromise P promise patchText"
  have ev0: "events ?p0 = events promise @ [SetProgressRange 0 1, SetProgressValue 0]" by simp
  from readGitPatch_events [of P ?p0 ?c] obtain esg where esg: "events ?g = events ?p0 @ esg"
    by blast
  from readGitPatch_credit [of ?p0 P ?c] newEvents_append [OF esg]
  have cg: "pollCredit 0 esg = Some 0" by simp
  have f: "?f = (if resultCount ?g = 0 then readDiffPatch P ?g ?c else ?g)"
    by (simp add: readPatchWithPromise_def Let_def)
  show ?thesis
  proof (cases "resultCount ?g = 0")
    case False
    with f have "events ?f = events promise @ ([SetProgressRange 0 1, SetProgressValue 0] @ esg)"
      using ev0 esg by simp
    then have "parseEvents P promise patchText = [SetProgressRange 0 1, SetProgressValue 0] @ esg"
      unfolding parseEvents_def by (rule newEvents_append)
    with cg show ?thesis by simp
  next
    case True
    from readDiffPatch_events [of P ?g ?c] obtain esd where
      esd: "events (readDiffPatch P ?g ?c) = events ?g @ esd" by blast
    from readDiffPatch_credit [of ?g P ?c] newEvents_append [OF esd]
    have cd: "pollCredit 0 esd \<noteq> None" by simp
    from True f have "events ?f
        = events promise @ ([SetProgressRange 0 1, SetProgressValue 0] @ esg @ esd)"
      using ev0 esg esd by simp
    then have "parseEvents P promise patchText
        = [SetProgressRange 0 1, SetProgressValue 0] @ esg @ esd"
      unfolding parseEvents_def by (rule newEvents_append)
    with cd pollCredit_append [OF cg, of esd] show ?thesis by simp
  qed
qed

lemma parseEvents_split:
  assumes "events (gitAttempt P promise patchText)
        = events promise @ [SetProgressRange 0 1, SetProgressValue 0] @ esg"
    and "events (readPatchWithPromise P promise patchText) = events (gitAttempt P promise patchText) @ esd"
  shows "parseEvents P promise patchText = SetProgressRange 0 1 # SetProgressValue 0 # esg @ esd"
  using assms by (simp add: parseEvents_def newEvents_def)

lemma cancelled_at_start:
  assumes "pollsUntilCancel promise = Some 0"
  shows "results (readPatchWithPromise P promise patchText) = results promise
     \<and> (\<exists>k. parseEvents P promise patchText
            = [SetProgressRange 0 1, SetProgressValue 0] @ replicate k (IsCanceled True))"
proof -
  let ?p0 = "setProgressValue 0 (setProgressRange 0 1 promise)"
  let ?c = "cropPatch P patchText"
  let ?g = "readGitPatch P ?p0 ?c"
  have c0: "pollsUntilCancel ?p0 = Some 0" using assms by simp
  have ev0: "events ?p0 = events promise @ [SetProgressRange 0 1, SetProgressValue 0]" by simp
  from readGitPatch_cancelled [OF c0, of P ?c]
  consider (same) "?g = ?p0" | (poll) "?g = logEvent (IsCanceled True) ?p0"
    by (auto split: if_splits)
  then have g: "results ?g = results promise \<and> pollsUntilCancel ?g = Some 0
      \<and> (\<exists>k. events ?g = events promise @ [SetProgressRange 0 1, SetProgressValue 0]
                 @ replicate k (IsCanceled True))"
  proof cases
    case same
    have "events ?p0 = events promise @ [SetProgressRange 0 1, SetProgressValue 0]
             @ replicate 0 (IsCanceled True)" by simp
    with same c0 show ?thesis by (metis results_setProgressRange results_setProgressValue)
  next
    case poll
    have "events (logEvent (IsCanceled True) ?p0)
        = events promise @ [SetProgressRange 0 1, SetProgressValue 0]
             @ replicate 1 (IsCanceled True)" by simp
    with poll c0 show ?thesis
      by (metis pollsUntilCancel_logEvent results_logEvent results_setProgressRange
          results_setProgressValue)
  qed
  then obtain k where k: "events ?g = events promise @ [SetProgressRange 0 1, SetProgressValue 0]
                 @ replicate k (IsCanceled True)" by blast
  let ?f = "readPatchWithPromise P promise patchText"
  have f: "?f = (if resultCount ?g = 0 then readDiffPatch P ?g ?c else ?g)"
    by (simp add: readPatchWithPromise_def Let_def)
  have "pollsUntilCancel ?g = Some 0" using g by simp
  from readDiffPatch_cancelled [OF this, of P ?c]
  have "readDiffPatch P ?g ?c = ?g \<or> readDiffPatch P ?g ?c = logEvent (IsCanceled True) ?g"
    by (cases "diffSegments P ?c = []") simp_all
  with f have "?f = ?g \<or> ?f = logEvent (IsCanceled True) ?g"
    by (cases "resultCount ?g = 0") simp_all
  then consider (git) "?f = ?g" | (again) "?f = logEvent (IsCanceled True) ?g"
    by blast
  then show ?thesis
  proof cases
    case git
    with g k show ?thesis by (auto simp: parseEvents_def newEvents_def)
  next
    case again
    have "events (logEvent (IsCanceled True) ?g)
        = events promise @ [SetProgressRange 0 1, SetProgressValue 0]
             @ replicate (Suc k) (IsCanceled True)"
      using k by (simp add: replicate_append_same)
    with again g show ?thesis by (auto simp: parseEvents_def newEvents_def simp del: replicate_Suc)
  qed
qed

subsection \<open>The segment parsers after the specification\<close>

lemma closeHunk_valid: "closeHunk cur = Some hs \<Longrightarrow> h \<in> set hs \<Longrightarrow> hunkCountsMatch h"
  by (auto simp: closeHunk_def split: option.splits if_splits)

lemma specReadHunks_valid:
  "specReadHunks cur ls = Some hs \<Longrightarrow> h \<in> set hs \<Longrightarrow> hunkCountsMatch h"
proof (induction ls arbitrary: cur hs)
  case Nil
  then show ?case using closeHunk_valid by simp
next
  case (Cons l ls)
  show ?case
  proof (cases "prefix ''@@'' l")
    case True
    with Cons.prems(1) obtain bs bc as ac closed hs' where
      m: "readHunkMarker l = Some (bs, bc, as, ac)"
      and c: "closeHunk cur = Some closed"
      and r: "specReadHunks (Some \<lparr>beforeStart = bs, beforeCount = bc, afterStart = as,
                 afterCount = ac, hunkLines = []\<rparr>) ls = Some hs'"
      and hs: "hs = closed @ hs'"
      by (auto split: option.splits)
    from Cons.prems(2) hs have "h \<in> set closed \<or> h \<in> set hs'" by simp
    then show ?thesis using closeHunk_valid [OF c] Cons.IH [OF r] by blast
  next
    case False
    show ?thesis
    proof (cases cur)
      case None
      with False Cons.prems(1) have "specReadHunks None ls = Some hs" by simp
      from Cons.IH [OF this Cons.prems(2)] show ?thesis .
    next
      case (Some opened)
      show ?thesis
      proof (cases "classifyLine l")
        case None
        with False Some Cons.prems(1) have "specReadHunks (Some opened) ls = Some hs" by simp
        from Cons.IH [OF this Cons.prems(2)] show ?thesis .
      next
        case (Some ln)
        with False \<open>cur = Some opened\<close> Cons.prems(1)
        have "specReadHunks (Some (opened\<lparr>hunkLines := hunkLines opened @ [ln]\<rparr>)) ls = Some hs"
          by simp
        from Cons.IH [OF this Cons.prems(2)] show ?thesis .
      qed
    qed
  qed
qed

lemma specReadDiffHeaderAndChunks_valid:
  "specReadDiffHeaderAndChunks s = Some fd \<Longrightarrow> h \<in> set (hunks fd) \<Longrightarrow> hunkCountsMatch h"
  using specReadHunks_valid
  by (auto simp: specReadDiffHeaderAndChunks_def
      split: list.splits option.splits if_splits prod.splits)

lemma hunks_gitHeaderLine [simp]: "hunks (gitHeaderLine fd l) = hunks fd"
  by (simp add: gitHeaderLine_def split: option.splits)

lemma hunks_foldl_gitHeaderLine [simp]: "hunks (foldl gitHeaderLine fd ls) = hunks fd"
  by (induction ls arbitrary: fd) simp_all

lemma specDetectFileData_hunks: "specDetectFileData s = Some (fd, rem) \<Longrightarrow> hunks fd = []"
  by (auto simp: specDetectFileData_def Let_def split: list.splits option.splits if_splits)

lemma specReadPatchInfo_valid:
  "specReadPatchInfo i = Some fd \<Longrightarrow> hunks (fileData i) = [] \<Longrightarrow> h \<in> set (hunks fd)
     \<Longrightarrow> hunkCountsMatch h"
  using specReadHunks_valid
  by (auto simp: specReadPatchInfo_def split: option.splits if_splits)

lemma specReadGitSegment_valid:
  "readGitSegment specParsers seg = Some fd \<Longrightarrow> h \<in> set (hunks fd) \<Longrightarrow> hunkCountsMatch h"
proof -
  assume r: "readGitSegment specParsers seg = Some fd" and h: "h \<in> set (hunks fd)"
  from r obtain fd0 rem where d: "specDetectFileData seg = Some (fd0, rem)"
    and i: "specReadPatchInfo \<lparr>patch = rem, fileData = fd0\<rparr> = Some fd"
    by (auto simp: readGitSegment_def specParsers_def split: option.splits)
  from specDetectFileData_hunks [OF d] have "hunks (fileData \<lparr>patch = rem, fileData = fd0\<rparr>) = []"
    by simp
  from specReadPatchInfo_valid [OF i this h] show ?thesis .
qed

lemma splitLines_not_Nil [simp]: "splitLines s \<noteq> []"
  by (induction s) (auto split: list.splits)

lemma splitLines_no_newline: "l \<in> set (splitLines s) \<Longrightarrow> newLine \<notin> set l"
proof (induction s arbitrary: l)
  case Nil
  then show ?case by simp
next
  case (Cons c cs)
  show ?case
  proof (cases "c = newLine")
    case True
    with Cons show ?thesis by auto
  next
    case False
    obtain l0 ls where sp: "splitLines cs = l0 # ls" by (cases "splitLines cs") simp_all
    with False Cons.prems have "l = c # l0 \<or> l \<in> set ls" by simp
    then show ?thesis
    proof
      assume "l = c # l0"
      with False Cons.IH [of l0] sp show ?thesis by simp
    next
      assume "l \<in> set ls"
      with Cons.IH [of l] sp show ?thesis by simp
    qed
  qed
qed

lemma splitLines_line: "newLine \<notin> set l \<Longrightarrow> splitLines l = [l]"
  by (induction l) auto

lemma splitLines_first: "newLine \<notin> set l \<Longrightarrow> splitLines (l @ newLine # s) = l # splitLines s"
  by (induction l) auto

lemma splitLines_joinLines:
  "ls \<noteq> [] \<Longrightarrow> \<forall>l\<in>set ls. newLine \<notin> set l \<Longrightarrow> splitLines (joinLines ls) = ls"
proof (induction ls rule: joinLines.induct)
  case 1
  then show ?case by simp
next
  case (2 l)
  then show ?case by (simp add: splitLines_line)
next
  case (3 l l' ls)
  then show ?case by (simp add: splitLines_first)
qed

lemma splitSegments_concat:
  "splitSegments boundary st ls = (h, segs) \<Longrightarrow> concat (h # segs) = ls \<and> [] \<notin> set segs"
proof (induction ls arbitrary: st h segs)
  case Nil
  then show ?case by simp
next
  case (Cons l ls)
  obtain h' segs' where r: "splitSegments boundary (trackHunk st l) ls = (h', segs')" by force
  from Cons.IH [OF r] have ih: "concat (h' # segs') = ls" "[] \<notin> set segs'" by simp_all
  show ?case
  proof (cases "\<not> hunkOpen st \<and> boundary (l # ls)")
    case True
    with Cons.prems r have "h = []" "segs = (l # h') # segs'" by simp_all
    with ih show ?thesis by simp
  next
    case False
    with Cons.prems r have "h = l # h'" "segs = segs'" by auto
    with ih show ?thesis by simp
  qed
qed

text \<open>The unified segments of the specification are consecutive pieces of the text, in
  text order: the lines of the text are the lines before the first header, followed by
  the lines of the first segment, of the second, and so on.\<close>

lemma specDiffSegments_in_text_order:
  "concat (fst (splitSegments unifiedBoundary (0, 0) (splitLines patchText))
             # map splitLines (specDiffSegments patchText))
   = splitLines patchText"
proof -
  obtain h segs where r: "splitSegments unifiedBoundary (0, 0) (splitLines patchText) = (h, segs)"
    by force
  from splitSegments_concat [OF r]
  have c: "concat (h # segs) = splitLines patchText" and ne: "[] \<notin> set segs" by simp_all
  have "splitLines (joinLines seg) = seg" if "seg \<in> set segs" for seg
  proof -
    from that ne have "seg \<noteq> []" by auto
    moreover have "\<forall>l\<in>set seg. newLine \<notin> set l"
    proof
      fix l assume "l \<in> set seg"
      with that have "l \<in> set (concat (h # segs))" by auto
      with c show "newLine \<notin> set l" using splitLines_no_newline by simp
    qed
    ultimately show ?thesis by (rule splitLines_joinLines)
  qed
  then have "map splitLines (map joinLines segs) = segs" by (simp add: map_idI)
  with r c show ?thesis by (simp add: specDiffSegments_def)
qed

subsection \<open>Detection order\<close>

text \<open>
  Claim C1. For every patch text the reader attempts the git parse first and runs the
  unified parse only when the git attempt has left the promise without a result. For
  every promise and text: when the git attempt has added a result, the call ends in
  the state the git attempt left, so nothing of the unified parser has run; when the
  call ends in any other state, the git attempt has left no result and the end state is
  that of \<open>readDiffPatch\<close> run after it; and the events of the git attempt are the
  first events of the call.
\<close>

theorem readPatchWithPromise_git_first:
  "(results (gitAttempt P promise patchText) \<noteq> results promise \<longrightarrow>
      readPatchWithPromise P promise patchText = gitAttempt P promise patchText)
   \<and> (readPatchWithPromise P promise patchText \<noteq> gitAttempt P promise patchText \<longrightarrow>
        results (gitAttempt P promise patchText) = []
        \<and> readPatchWithPromise P promise patchText
            = readDiffPatch P (gitAttempt P promise patchText) (cropPatch P patchText))
   \<and> prefix (events (gitAttempt P promise patchText)) (events (readPatchWithPromise P promise patchText))"
proof -
  let ?g = "gitAttempt P promise patchText"
  let ?f = "readPatchWithPromise P promise patchText"
  have f: "?f = (if resultCount ?g = 0 then readDiffPatch P ?g (cropPatch P patchText) else ?g)"
    by (simp add: readPatchWithPromise_def gitAttempt_def Let_def)
  have grown: "results ?g \<noteq> results promise \<Longrightarrow> resultCount ?g \<noteq> 0"
    using readGitPatch_results [of P "setProgressValue 0 (setProgressRange 0 1 promise)"
        "cropPatch P patchText"]
    by (auto simp: gitAttempt_def resultCount_def)
  from readPatchWithPromise_events [of P promise patchText]
  have "prefix (events ?g) (events ?f)" by (auto simp: prefix_def)
  with f grown show ?thesis by (auto simp: resultCount_def)
qed

theorem readPatchWithPromise_git_first_witness:
  "results (gitAttempt specParsers newPromise
      ''diff --git a/x b/x\<newline>Binary files a/x and b/x differ\<newline>'') \<noteq> results newPromise
   \<and> readPatchWithPromise specParsers newPromise
        ''diff --git a/x b/x\<newline>Binary files a/x and b/x differ\<newline>''
      = gitAttempt specParsers newPromise
        ''diff --git a/x b/x\<newline>Binary files a/x and b/x differ\<newline>''
   \<and> readPatchWithPromise specParsers newPromise
        ''--- a/f\<newline>+++ b/f\<newline>@@ -1 +1 @@\<newline>-a\<newline>+b\<newline>''
      \<noteq> gitAttempt specParsers newPromise
        ''--- a/f\<newline>+++ b/f\<newline>@@ -1 +1 @@\<newline>-a\<newline>+b\<newline>''
   \<and> results (gitAttempt specParsers newPromise
        ''--- a/f\<newline>+++ b/f\<newline>@@ -1 +1 @@\<newline>-a\<newline>+b\<newline>'') = []"
proof -
  have h1: "results (gitAttempt specParsers newPromise
      ''diff --git a/x b/x\<newline>Binary files a/x and b/x differ\<newline>'') \<noteq> results newPromise"
    by code_simp
  have h2: "readPatchWithPromise specParsers newPromise
        ''--- a/f\<newline>+++ b/f\<newline>@@ -1 +1 @@\<newline>-a\<newline>+b\<newline>''
      \<noteq> gitAttempt specParsers newPromise
        ''--- a/f\<newline>+++ b/f\<newline>@@ -1 +1 @@\<newline>-a\<newline>+b\<newline>''"
    by code_simp
  from h1 h2
    readPatchWithPromise_git_first [of specParsers newPromise
      "''diff --git a/x b/x\<newline>Binary files a/x and b/x differ\<newline>''"]
    readPatchWithPromise_git_first [of specParsers newPromise
      "''--- a/f\<newline>+++ b/f\<newline>@@ -1 +1 @@\<newline>-a\<newline>+b\<newline>''"]
  show ?thesis by blast
qed

subsection \<open>A segment that fails\<close>

text \<open>
  Claim C2, as amended. Each pass is all or nothing: a git segment that fails (its file
  data is not detected, or its body does not parse) leaves the git pass without a
  result, and a unified segment that fails leaves the unified pass without a result. A
  list that \<open>readPatch\<close> returns holds the parse of every segment of the pass that
  produced it, the git pass or, after a git pass without result, the unified pass; it
  is never a part of them. When a segment fails in both passes, \<open>readPatch\<close> returns
  no value.
\<close>

theorem pass_all_or_nothing:
  "((\<exists>seg\<in>set (gitSegments P patchText). readGitSegment P seg = None) \<longrightarrow>
       results (readGitPatch P p patchText) = results p)
   \<and> ((\<exists>seg\<in>set (diffSegments P patchText). readDiffHeaderAndChunks P seg = None) \<longrightarrow>
       results (readDiffPatch P p patchText) = results p)
   \<and> (readPatch P patchText = Some fds \<longrightarrow>
         map Some fds = map (readGitSegment P) (gitSegments P (cropPatch P patchText))
         \<or> (results (gitAttempt P newPromise patchText) = []
            \<and> map Some fds
                 = map (readDiffHeaderAndChunks P) (diffSegments P (cropPatch P patchText))))
   \<and> ((\<exists>seg\<in>set (gitSegments P (cropPatch P patchText)). readGitSegment P seg = None)
        \<and> (\<exists>seg\<in>set (diffSegments P (cropPatch P patchText)).
              readDiffHeaderAndChunks P seg = None) \<longrightarrow>
       readPatch P patchText = None)"
proof -
  have a: "(\<exists>seg\<in>set (gitSegments P patchText). readGitSegment P seg = None) \<longrightarrow>
       results (readGitPatch P p patchText) = results p"
  proof
    assume "\<exists>seg\<in>set (gitSegments P patchText). readGitSegment P seg = None"
    then obtain seg where seg: "seg \<in> set (gitSegments P patchText)"
      "readGitSegment P seg = None" by blast
    from readGitPatch_results [of P p patchText]
    show "results (readGitPatch P p patchText) = results p"
    proof
      assume "results (readGitPatch P p patchText) = results p"
      then show ?thesis .
    next
      assume "\<exists>fds. results (readGitPatch P p patchText) = results p @ [fds] \<and> fds \<noteq> []
          \<and> map Some fds = map (readGitSegment P) (gitSegments P patchText)"
      then obtain fds' where
        "map Some fds' = map (readGitSegment P) (gitSegments P patchText)" by blast
      from map_Some_no_None [OF this seg(1)] seg(2) show ?thesis by simp
    qed
  qed
  have b: "(\<exists>seg\<in>set (diffSegments P patchText). readDiffHeaderAndChunks P seg = None) \<longrightarrow>
       results (readDiffPatch P p patchText) = results p"
  proof
    assume "\<exists>seg\<in>set (diffSegments P patchText). readDiffHeaderAndChunks P seg = None"
    then obtain seg where seg: "seg \<in> set (diffSegments P patchText)"
      "readDiffHeaderAndChunks P seg = None" by blast
    from readDiffPatch_results [of P p patchText]
    show "results (readDiffPatch P p patchText) = results p"
    proof
      assume "results (readDiffPatch P p patchText) = results p"
      then show ?thesis .
    next
      assume "\<exists>fds. results (readDiffPatch P p patchText) = results p @ [fds] \<and> fds \<noteq> []
          \<and> map Some fds = map (readDiffHeaderAndChunks P) (diffSegments P patchText)"
      then obtain fds' where
        "map Some fds' = map (readDiffHeaderAndChunks P) (diffSegments P patchText)" by blast
      from map_Some_no_None [OF this seg(1)] seg(2) show ?thesis by simp
    qed
  qed
  have c: "readPatch P patchText = Some fds \<longrightarrow>
         map Some fds = map (readGitSegment P) (gitSegments P (cropPatch P patchText))
         \<or> (results (gitAttempt P newPromise patchText) = []
            \<and> map Some fds
                 = map (readDiffHeaderAndChunks P) (diffSegments P (cropPatch P patchText)))"
    using readPatch_cases [of P patchText] by auto
  have d: "(\<exists>seg\<in>set (gitSegments P (cropPatch P patchText)). readGitSegment P seg = None)
        \<and> (\<exists>seg\<in>set (diffSegments P (cropPatch P patchText)).
              readDiffHeaderAndChunks P seg = None) \<longrightarrow>
       readPatch P patchText = None"
  proof
    assume f: "(\<exists>seg\<in>set (gitSegments P (cropPatch P patchText)). readGitSegment P seg = None)
        \<and> (\<exists>seg\<in>set (diffSegments P (cropPatch P patchText)).
              readDiffHeaderAndChunks P seg = None)"
    then obtain sg sd where sg: "sg \<in> set (gitSegments P (cropPatch P patchText))"
        "readGitSegment P sg = None"
      and sd: "sd \<in> set (diffSegments P (cropPatch P patchText))"
        "readDiffHeaderAndChunks P sd = None" by blast
    show "readPatch P patchText = None"
    proof (cases "readPatch P patchText")
      case None
      then show ?thesis .
    next
      case (Some fds')
      from readPatch_cases [of P patchText] Some
      have "map Some fds' = map (readGitSegment P) (gitSegments P (cropPatch P patchText))
         \<or> map Some fds'
              = map (readDiffHeaderAndChunks P) (diffSegments P (cropPatch P patchText))"
        by auto
      then show ?thesis
      proof
        assume "map Some fds' = map (readGitSegment P) (gitSegments P (cropPatch P patchText))"
        from map_Some_no_None [OF this sg(1)] sg(2) show ?thesis by simp
      next
        assume "map Some fds'
              = map (readDiffHeaderAndChunks P) (diffSegments P (cropPatch P patchText))"
        from map_Some_no_None [OF this sd(1)] sd(2) show ?thesis by simp
      qed
    qed
  qed
  from a b c d show ?thesis by (intro conjI)
qed

theorem pass_all_or_nothing_witness:
  "(\<exists>seg\<in>set (gitSegments specParsers gitBadHeader). readGitSegment specParsers seg = None)
   \<and> results (readGitPatch specParsers newPromise gitBadHeader) = results newPromise
   \<and> (\<exists>seg\<in>set (diffSegments specParsers unifiedBadHunk).
         readDiffHeaderAndChunks specParsers seg = None)
   \<and> results (readDiffPatch specParsers newPromise unifiedBadHunk) = results newPromise
   \<and> readPatch specParsers unifiedTwo = Some unifiedTwoFiles
   \<and> (map Some unifiedTwoFiles
         = map (readGitSegment specParsers) (gitSegments specParsers (cropPatch specParsers unifiedTwo))
       \<or> (results (gitAttempt specParsers newPromise unifiedTwo) = []
          \<and> map Some unifiedTwoFiles
               = map (readDiffHeaderAndChunks specParsers)
                   (diffSegments specParsers (cropPatch specParsers unifiedTwo))))
   \<and> (\<exists>seg\<in>set (gitSegments specParsers (cropPatch specParsers bothBad)).
         readGitSegment specParsers seg = None)
   \<and> (\<exists>seg\<in>set (diffSegments specParsers (cropPatch specParsers bothBad)).
         readDiffHeaderAndChunks specParsers seg = None)
   \<and> readPatch specParsers bothBad = None"
proof -
  have h1: "\<exists>seg\<in>set (gitSegments specParsers gitBadHeader). readGitSegment specParsers seg = None"
    by code_simp
  have h2: "\<exists>seg\<in>set (diffSegments specParsers unifiedBadHunk).
         readDiffHeaderAndChunks specParsers seg = None"
    by code_simp
  have h3: "readPatch specParsers unifiedTwo = Some unifiedTwoFiles"
    by code_simp
  have h4: "\<exists>seg\<in>set (gitSegments specParsers (cropPatch specParsers bothBad)).
         readGitSegment specParsers seg = None"
    by code_simp
  have h5: "\<exists>seg\<in>set (diffSegments specParsers (cropPatch specParsers bothBad)).
         readDiffHeaderAndChunks specParsers seg = None"
    by code_simp
  from h1 pass_all_or_nothing [of specParsers gitBadHeader newPromise unifiedTwoFiles]
  have c1: "results (readGitPatch specParsers newPromise gitBadHeader) = results newPromise"
    by (elim conjE) simp
  from h2 pass_all_or_nothing [of specParsers unifiedBadHunk newPromise unifiedTwoFiles]
  have c2: "results (readDiffPatch specParsers newPromise unifiedBadHunk) = results newPromise"
    by (elim conjE) simp
  from h3 pass_all_or_nothing [of specParsers unifiedTwo newPromise unifiedTwoFiles]
  have c3: "map Some unifiedTwoFiles
         = map (readGitSegment specParsers) (gitSegments specParsers (cropPatch specParsers unifiedTwo))
       \<or> (results (gitAttempt specParsers newPromise unifiedTwo) = []
          \<and> map Some unifiedTwoFiles
               = map (readDiffHeaderAndChunks specParsers)
                   (diffSegments specParsers (cropPatch specParsers unifiedTwo)))"
    by (elim conjE) simp
  from h4 h5 pass_all_or_nothing [of specParsers bothBad newPromise unifiedTwoFiles]
  have c4: "readPatch specParsers bothBad = None"
    by (elim conjE) simp
  show ?thesis
    by (intro conjI) (rule h1 c1 h2 c2 h3 c3 h4 h5 c4)+
qed

text \<open>
  Claim C2 as stated does not hold for the whole parse: after a git pass that failed,
  \<^verbatim>\<open>readPatchWithPromise\<close> runs the unified pass over the same text. In \<open>gitBadHeader\<close>
  the second git segment has no detectable file data, and the parse still returns the
  first file, read by the unified pass.
\<close>

theorem partial_result_counterexample:
  "gitSegments specParsers (cropPatch specParsers gitBadHeader)
     = [''diff --git a/f b/f\<newline>--- a/f\<newline>+++ b/f\<newline>@@ -1 +1 @@\<newline>-a\<newline>+b'',
        ''diff --git x\<newline>'']
   \<and> detectFileData specParsers ''diff --git x\<newline>'' = None
   \<and> readPatch specParsers gitBadHeader
     = Some [\<lparr>source = ''a/f'', destination = ''b/f'', changeKind = ModifiedFile,
              hunks = [\<lparr>beforeStart = 1, beforeCount = 1, afterStart = 1, afterCount = 1,
                        hunkLines = [\<lparr>role = Removed, content = ''a''\<rparr>,
                                     \<lparr>role = Added, content = ''b''\<rparr>]\<rparr>]\<rparr>]"
  by code_simp

subsection \<open>Cancellation\<close>




subsection \<open>Progress\<close>

text \<open>
  Claim C4, as amended. During one call the reported progress values lie between 0
  and the number of git segments and never decrease. In the git pass the range is set
  to 0 up to the number of segments, and a progress report is issued directly before
  the body of each segment is read, with the number of bodies read so far as its
  value: the reports and the reads alternate, starting with the report of 0 and ending
  with a read, so no report follows the last read, and every value reported there is
  below the number of segments. The unified pass reports no progress value.
\<close>

theorem progress_reports:
  "(\<forall>v \<in> set (progressValues (parseEvents P promise patchText)).
       0 \<le> v \<and> v \<le> int (length (gitSegments P (cropPatch P patchText))))
   \<and> sorted (progressValues (parseEvents P promise patchText))
   \<and> alternates 0 (reportLog (newEvents p (readGitPatch P p patchText)))
   \<and> (\<forall>v \<in> set (progressValues (newEvents p (readGitPatch P p patchText))).
         0 \<le> v \<and> v < int (length (gitSegments P patchText)))
   \<and> (progressRanges (newEvents p (readGitPatch P p patchText)) = []
        \<or> progressRanges (newEvents p (readGitPatch P p patchText))
             = [(0, int (length (gitSegments P patchText)))])
   \<and> progressValues (newEvents p (readDiffPatch P p patchText)) = []"
proof -
  from readPatchWithPromise_events [of P promise patchText] obtain esg esd where
    ev: "events (gitAttempt P promise patchText)
        = events promise @ [SetProgressRange 0 1, SetProgressValue 0] @ esg"
      "events (readPatchWithPromise P promise patchText) = events (gitAttempt P promise patchText) @ esd"
    and pv: "progressValues (esg @ esd) = progressValues esg"
    and alt: "alternates 0 (reportLog esg)"
    and len: "length (reportLog esg) \<le> 2 * length (gitSegments P (cropPatch P patchText))"
    by blast
  have pe: "progressValues (parseEvents P promise patchText) = 0 # progressValues (reportLog esg)"
    using parseEvents_split [OF ev] pv by (simp add: progressValues_reportLog)
  have bounds: "0 \<le> v \<and> v \<le> int (length (gitSegments P (cropPatch P patchText)))"
    if "v \<in> set (progressValues (reportLog esg))" for v
  proof -
    from len have "int (length (reportLog esg))
        \<le> 2 * int (length (gitSegments P (cropPatch P patchText)))" by simp
    with alternates_bounds [OF alt that] show ?thesis by auto
  qed
  have lower: "\<forall>v\<in>set (progressValues (reportLog esg)). 0 \<le> v" using bounds by blast
  have a: "\<forall>v \<in> set (progressValues (parseEvents P promise patchText)).
       0 \<le> v \<and> v \<le> int (length (gitSegments P (cropPatch P patchText)))"
    using pe bounds by auto
  have b: "sorted (progressValues (parseEvents P promise patchText))"
    using pe alternates_sorted [OF alt] lower by simp
  from readGitPatch_events [of P p patchText] obtain es where
    es: "events (readGitPatch P p patchText) = events p @ es" "alternates 0 (reportLog es)"
      "progressRanges es = [] \<or> progressRanges es = [(0, int (length (gitSegments P patchText)))]"
      "length (reportLog es) \<le> 2 * length (gitSegments P patchText)"
    by blast
  have c: "alternates 0 (reportLog (newEvents p (readGitPatch P p patchText)))"
    using es(2) newEvents_append [OF es(1)] by simp
  have c': "\<forall>v \<in> set (progressValues (newEvents p (readGitPatch P p patchText))).
         0 \<le> v \<and> v < int (length (gitSegments P patchText))"
  proof
    fix v assume "v \<in> set (progressValues (newEvents p (readGitPatch P p patchText)))"
    then have "v \<in> set (progressValues (reportLog es))"
      using newEvents_append [OF es(1)] by (simp add: progressValues_reportLog)
    from alternates_bounds [OF es(2) this]
    have "0 \<le> v" "2 * v + 2 \<le> int (length (reportLog es))" by simp_all
    moreover from es(4) have "int (length (reportLog es))
        \<le> 2 * int (length (gitSegments P patchText))" by simp
    ultimately show "0 \<le> v \<and> v < int (length (gitSegments P patchText))" by auto
  qed
  have d: "progressRanges (newEvents p (readGitPatch P p patchText)) = []
        \<or> progressRanges (newEvents p (readGitPatch P p patchText))
             = [(0, int (length (gitSegments P patchText)))]"
    using es(3) newEvents_append [OF es(1)] by simp
  from readDiffPatch_events [of P p patchText] obtain es' where
    es': "events (readDiffPatch P p patchText) = events p @ es'" "progressValues es' = []"
    by blast
  have e: "progressValues (newEvents p (readDiffPatch P p patchText)) = []"
    using es'(2) newEvents_append [OF es'(1)] by simp
  from a b c c' d e show ?thesis by (intro conjI)
qed

theorem progress_reports_witness:
  "progressValues (parseEvents specParsers newPromise gitTwoFiles) = [0, 0, 1]
   \<and> length (gitSegments specParsers (cropPatch specParsers gitTwoFiles)) = 2
   \<and> 1 \<in> set (progressValues (parseEvents specParsers newPromise gitTwoFiles))
   \<and> (0::int) \<le> 1
   \<and> 1 \<le> int (length (gitSegments specParsers (cropPatch specParsers gitTwoFiles)))
   \<and> sorted (progressValues (parseEvents specParsers newPromise gitTwoFiles))
   \<and> alternates 0 (reportLog (newEvents newPromise (readGitPatch specParsers newPromise gitTwoFiles)))
   \<and> 1 \<in> set (progressValues
         (newEvents newPromise (readGitPatch specParsers newPromise gitTwoFiles)))
   \<and> 1 < int (length (gitSegments specParsers gitTwoFiles))"
proof -
  have h1: "progressValues (parseEvents specParsers newPromise gitTwoFiles) = [0, 0, 1]"
    by code_simp
  have h2: "length (gitSegments specParsers (cropPatch specParsers gitTwoFiles)) = 2"
    by code_simp
  from h1 have h3: "1 \<in> set (progressValues (parseEvents specParsers newPromise gitTwoFiles))"
    by simp
  note t = progress_reports [of specParsers newPromise gitTwoFiles newPromise]
  from t have all: "\<forall>v \<in> set (progressValues (parseEvents specParsers newPromise gitTwoFiles)).
       0 \<le> v \<and> v \<le> int (length (gitSegments specParsers (cropPatch specParsers gitTwoFiles)))"
    by (rule conjunct1)
  from all h3 have b: "(0::int) \<le> 1"
      "1 \<le> int (length (gitSegments specParsers (cropPatch specParsers gitTwoFiles)))"
    by blast+
  from t have s: "sorted (progressValues (parseEvents specParsers newPromise gitTwoFiles))"
    by (elim conjE)
  from t have a: "alternates 0
      (reportLog (newEvents newPromise (readGitPatch specParsers newPromise gitTwoFiles)))"
    by (elim conjE)
  have h4: "1 \<in> set (progressValues
      (newEvents newPromise (readGitPatch specParsers newPromise gitTwoFiles)))"
    by code_simp
  from t have all': "\<forall>v \<in> set (progressValues
          (newEvents newPromise (readGitPatch specParsers newPromise gitTwoFiles))).
       0 \<le> v \<and> v < int (length (gitSegments specParsers gitTwoFiles))"
    by (elim conjE)
  from all' h4 have b': "1 < int (length (gitSegments specParsers gitTwoFiles))"
    by blast
  show ?thesis by (intro conjI) (rule h1 h2 h3 b s a h4 b')+
qed

text \<open>
  Claim C4 as stated says that a report is issued after each segment is processed. In
  the log of the git patch \<open>gitBinary\<close> the read of its one segment is followed by no
  progress report.
\<close>

theorem report_after_read_counterexample:
  "parseEvents specParsers newPromise gitBinary
     = [SetProgressRange 0 1, SetProgressValue 0, IsCanceled False, DetectSegment,
        SetProgressRange 0 1, IsCanceled False, SetProgressValue 0, ReadSegment, AddResult]
   \<and> \<not> reportAfterEachRead (parseEvents specParsers newPromise gitBinary)"
  by code_simp

subsection \<open>Hunk line counts\<close>

text \<open>
  Claim C5. For every hunk of every file of a list that \<open>readPatch\<close> returns with the
  segment parsers of the specification, the number of context lines plus the number
  of removed lines is the declared before-count, and the number of context lines plus
  the number of added lines is the declared after-count.
\<close>

theorem hunk_line_counts:
  assumes "readPatch specParsers patchText = Some fds"
    and "fd \<in> set fds" and "h \<in> set (hunks fd)"
  shows "countRole Context h + countRole Removed h = beforeCount h
     \<and> countRole Context h + countRole Added h = afterCount h"
proof -
  from readPatch_cases [of specParsers patchText] assms(1)
  consider (git) "map Some fds
        = map (readGitSegment specParsers) (gitSegments specParsers (cropPatch specParsers patchText))"
    | (diff) "map Some fds = map (readDiffHeaderAndChunks specParsers)
          (diffSegments specParsers (cropPatch specParsers patchText))"
    by auto
  then have "hunkCountsMatch h"
  proof cases
    case git
    from map_Some_member [OF git assms(2)] obtain seg where
      "readGitSegment specParsers seg = Some fd" by blast
    from specReadGitSegment_valid [OF this assms(3)] show ?thesis .
  next
    case diff
    from map_Some_member [OF diff assms(2)] obtain seg where
      "readDiffHeaderAndChunks specParsers seg = Some fd" by blast
    then have "specReadDiffHeaderAndChunks seg = Some fd" by (simp add: specParsers_def)
    from specReadDiffHeaderAndChunks_valid [OF this assms(3)] show ?thesis .
  qed
  then show ?thesis by (simp add: hunkCountsMatch_def)
qed

theorem hunk_line_counts_witness:
  "readPatch specParsers unifiedOne = Some [unifiedOneFile]
   \<and> unifiedOneFile \<in> set [unifiedOneFile]
   \<and> unifiedOneHunk \<in> set (hunks unifiedOneFile)
   \<and> countRole Context unifiedOneHunk + countRole Removed unifiedOneHunk
        = beforeCount unifiedOneHunk
   \<and> countRole Context unifiedOneHunk + countRole Added unifiedOneHunk
        = afterCount unifiedOneHunk"
proof -
  have h1: "readPatch specParsers unifiedOne = Some [unifiedOneFile]" by code_simp
  have h2: "unifiedOneFile \<in> set [unifiedOneFile]" by simp
  have h3: "unifiedOneHunk \<in> set (hunks unifiedOneFile)" by (simp add: unifiedOneFile_def)
  from hunk_line_counts [OF h1 h2 h3] h1 h2 h3 show ?thesis by blast
qed

subsection \<open>Order of the files\<close>

text \<open>
  Claim C6. For a text that is parsed as a unified diff (the git attempt has left no
  result, as it does for every text without a git header, see \<open>gitAttempt_no_header\<close>),
  the list that \<open>readPatch\<close> returns has one entry per unified header segment, and its
  \<open>i\<close>-th entry is the parse of the \<open>i\<close>-th segment: the files are in the order of
  their headers in the text.
\<close>

theorem unified_results_in_header_order:
  assumes "readPatch P patchText = Some fds"
    and "results (gitAttempt P newPromise patchText) = []"
  shows "length fds = length (diffSegments P (cropPatch P patchText))
     \<and> (\<forall>i < length fds.
           readDiffHeaderAndChunks P (diffSegments P (cropPatch P patchText) ! i)
             = Some (fds ! i))"
proof -
  from readPatch_cases [of P patchText] assms
  have m: "map Some fds
      = map (readDiffHeaderAndChunks P) (diffSegments P (cropPatch P patchText))"
    by auto
  then have len: "length fds = length (diffSegments P (cropPatch P patchText))"
    using length_map [of Some fds] by simp
  have "readDiffHeaderAndChunks P (diffSegments P (cropPatch P patchText) ! i) = Some (fds ! i)"
    if "i < length fds" for i
  proof -
    from that len have "map (readDiffHeaderAndChunks P) (diffSegments P (cropPatch P patchText)) ! i
        = readDiffHeaderAndChunks P (diffSegments P (cropPatch P patchText) ! i)"
      by simp
    moreover from that have "map Some fds ! i = Some (fds ! i)" by simp
    ultimately show ?thesis using m by simp
  qed
  with len show ?thesis by blast
qed

theorem unified_results_in_header_order_witness:
  "readPatch specParsers unifiedTwo = Some unifiedTwoFiles
   \<and> results (gitAttempt specParsers newPromise unifiedTwo) = []
   \<and> length unifiedTwoFiles = length (diffSegments specParsers (cropPatch specParsers unifiedTwo))
   \<and> readDiffHeaderAndChunks specParsers
         (diffSegments specParsers (cropPatch specParsers unifiedTwo) ! 0)
       = Some (unifiedTwoFiles ! 0)
   \<and> readDiffHeaderAndChunks specParsers
         (diffSegments specParsers (cropPatch specParsers unifiedTwo) ! 1)
       = Some (unifiedTwoFiles ! 1)"
proof -
  have h1: "readPatch specParsers unifiedTwo = Some unifiedTwoFiles" by code_simp
  have h2: "results (gitAttempt specParsers newPromise unifiedTwo) = []" by code_simp
  note t = unified_results_in_header_order [OF h1 h2]
  have two: "length unifiedTwoFiles = 2" by (simp add: unifiedTwoFiles_def)
  from t have len: "length unifiedTwoFiles
      = length (diffSegments specParsers (cropPatch specParsers unifiedTwo))" by (rule conjunct1)
  from t two have i0: "readDiffHeaderAndChunks specParsers
         (diffSegments specParsers (cropPatch specParsers unifiedTwo) ! 0)
       = Some (unifiedTwoFiles ! 0)" by simp
  from t two have i1: "readDiffHeaderAndChunks specParsers
         (diffSegments specParsers (cropPatch specParsers unifiedTwo) ! 1)
       = Some (unifiedTwoFiles ! 1)" by simp
  show ?thesis by (intro conjI) (rule h1 h2 len i0 i1)+
qed

subsection \<open>The empty patch\<close>

text \<open>
  Claim C7, as amended. \<open>readPatch\<close> never returns a list without files, and for a text
  in which neither a git header nor a unified header is found, such as the empty text,
  it returns no value: the same outcome as for a patch that does not parse.
\<close>

theorem no_result_without_segments:
  "readPatch P patchText \<noteq> Some []
   \<and> (gitSegments P (cropPatch P patchText) = [] \<and> diffSegments P (cropPatch P patchText) = []
        \<longrightarrow> readPatch P patchText = None)"
  using readPatch_cases [of P patchText] by auto

theorem no_result_without_segments_witness:
  "gitSegments specParsers (cropPatch specParsers []) = []
   \<and> diffSegments specParsers (cropPatch specParsers []) = []
   \<and> readPatch specParsers [] = None"
proof -
  have h1: "gitSegments specParsers (cropPatch specParsers []) = []" by code_simp
  have h2: "diffSegments specParsers (cropPatch specParsers []) = []" by code_simp
  from no_result_without_segments [of specParsers "[]"] h1 h2 show ?thesis by blast
qed

text \<open>
  Claim C7 as stated says that the empty text parses with success into zero files. With
  the segment parsers of the specification the empty text yields no value, and so does
  the patch \<open>unifiedBadHunk\<close> with a corrupted hunk header: the two outcomes are equal.
\<close>

theorem empty_patch_counterexample:
  "readPatch specParsers [] = None
   \<and> readPatch specParsers [] = readPatch specParsers unifiedBadHunk"
  by code_simp

subsection \<open>The example of the specification\<close>

text \<open>
  Claim C8. With the segment parsers of the specification, the text of the example
  parses into one file with source path \<open>a/f.txt\<close> and destination path \<open>b/f.txt\<close>
  and one hunk with before-count 1 and after-count 2, whose lines are, in order, the
  removed line \<open>old\<close> and the added lines \<open>new1\<close> and \<open>new2\<close>.
\<close>

theorem readPatch_example:
  "readPatch specParsers
     ''--- a/f.txt\<newline>+++ b/f.txt\<newline>@@ -1,1 +1,2 @@\<newline>-old\<newline>+new1\<newline>+new2\<newline>''
   = Some [\<lparr>source = ''a/f.txt'', destination = ''b/f.txt'', changeKind = ModifiedFile,
            hunks = [\<lparr>beforeStart = 1, beforeCount = 1, afterStart = 1, afterCount = 2,
                      hunkLines = [\<lparr>role = Removed, content = ''old''\<rparr>,
                                   \<lparr>role = Added, content = ''new1''\<rparr>,
                                   \<lparr>role = Added, content = ''new2''\<rparr>]\<rparr>]\<rparr>]"
  by code_simp

end
